theory Spec2Isabelle
  imports Complex_Main
begin

section \<open>Numeric values and arrays\<close>

text \<open>
  The entries of the numpy arrays are modelled in exact arithmetic: a finite entry is a
  real number, and the three special values are the ones numpy produces where the real
  operation is undefined (\<^verbatim>\<open>np.sqrt\<close> of a negative number is \<^verbatim>\<open>nan\<close>, a division by zero
  is \<^verbatim>\<open>inf\<close>, \<^verbatim>\<open>-inf\<close> or \<^verbatim>\<open>nan\<close>; numpy warns and goes on, it does not raise).
  Rounding is not modelled, and zero has no sign (it counts as \<^verbatim>\<open>+0.0\<close>). A finite entry
  is any real number, so these operations never overflow; the operations that do are
  \<open>o_add\<close>, \<open>o_sub\<close>, \<open>o_mul\<close>, \<open>o_div\<close> below.
\<close>

datatype f64 = Fin real | PInf | NInf | NaN

fun f_neg :: "f64 \<Rightarrow> f64" where
  "f_neg (Fin a) = Fin (- a)"
| "f_neg PInf = NInf"
| "f_neg NInf = PInf"
| "f_neg NaN = NaN"

fun f_add :: "f64 \<Rightarrow> f64 \<Rightarrow> f64" where
  "f_add (Fin a) (Fin b) = Fin (a + b)"
| "f_add NaN _ = NaN"
| "f_add _ NaN = NaN"
| "f_add PInf NInf = NaN"
| "f_add NInf PInf = NaN"
| "f_add PInf _ = PInf"
| "f_add _ PInf = PInf"
| "f_add NInf _ = NInf"
| "f_add _ NInf = NInf"

definition f_sub :: "f64 \<Rightarrow> f64 \<Rightarrow> f64" where
  "f_sub a b = f_add a (f_neg b)"

text \<open>The sign of a product or quotient with an infinite operand.\<close>

definition inf_signed :: "bool \<Rightarrow> f64" where
  "inf_signed positive = (if positive then PInf else NInf)"

fun f_mul :: "f64 \<Rightarrow> f64 \<Rightarrow> f64" where
  "f_mul (Fin a) (Fin b) = Fin (a * b)"
| "f_mul NaN _ = NaN"
| "f_mul _ NaN = NaN"
| "f_mul (Fin a) PInf = (if a = 0 then NaN else inf_signed (0 < a))"
| "f_mul (Fin a) NInf = (if a = 0 then NaN else inf_signed (a < 0))"
| "f_mul PInf (Fin b) = (if b = 0 then NaN else inf_signed (0 < b))"
| "f_mul NInf (Fin b) = (if b = 0 then NaN else inf_signed (b < 0))"
| "f_mul PInf PInf = PInf"
| "f_mul NInf NInf = PInf"
| "f_mul PInf NInf = NInf"
| "f_mul NInf PInf = NInf"

fun f_div :: "f64 \<Rightarrow> f64 \<Rightarrow> f64" where
  "f_div (Fin a) (Fin b) =
     (if b = 0 then (if a = 0 then NaN else inf_signed (0 < a)) else Fin (a / b))"
| "f_div NaN _ = NaN"
| "f_div _ NaN = NaN"
| "f_div (Fin a) PInf = Fin 0"
| "f_div (Fin a) NInf = Fin 0"
| "f_div PInf (Fin b) = inf_signed (0 \<le> b)"
| "f_div NInf (Fin b) = inf_signed (b < 0)"
| "f_div PInf PInf = NaN"
| "f_div PInf NInf = NaN"
| "f_div NInf PInf = NaN"
| "f_div NInf NInf = NaN"

fun f_sqrt :: "f64 \<Rightarrow> f64" where
  "f_sqrt (Fin a) = (if a < 0 then NaN else Fin (sqrt a))"
| "f_sqrt PInf = PInf"
| "f_sqrt NInf = NaN"
| "f_sqrt NaN = NaN"

text \<open>\<^verbatim>\<open>x >= y\<close>: every comparison with \<^verbatim>\<open>nan\<close> is false.\<close>

fun f_ge :: "f64 \<Rightarrow> f64 \<Rightarrow> bool" where
  "f_ge (Fin a) (Fin b) = (b \<le> a)"
| "f_ge NaN _ = False"
| "f_ge _ NaN = False"
| "f_ge PInf _ = True"
| "f_ge _ NInf = True"
| "f_ge NInf _ = False"
| "f_ge _ PInf = False"

text \<open>The truth value of an entry, as \<^verbatim>\<open>np.argwhere\<close> tests it: everything but zero.\<close>

fun f_nonzero :: "f64 \<Rightarrow> bool" where
  "f_nonzero (Fin a) = (a \<noteq> 0)"
| "f_nonzero _ = True"

fun is_fin :: "f64 \<Rightarrow> bool" where
  "is_fin (Fin a) = True"
| "is_fin _ = False"

type_synonym vec = "f64 list"
type_synonym mat = "f64 list list"

text \<open>A two-dimensional array is the list of its rows; \<open>is_shape m n M\<close> says that
  \<open>M\<close> has shape \<open>(m, n)\<close>.\<close>

definition is_shape :: "nat \<Rightarrow> nat \<Rightarrow> 'a list list \<Rightarrow> bool" where
  "is_shape m n M = (length M = m \<and> list_all (\<lambda>r. length r = n) M)"

text \<open>\<^verbatim>\<open>np.zeros((m, n))\<close>\<close>

definition zeros :: "nat \<Rightarrow> nat \<Rightarrow> mat" where
  "zeros m n = replicate m (replicate n (Fin 0))"

text \<open>\<^verbatim>\<open>M.T\<close> of an array of shape \<open>(m, n)\<close>\<close>

definition transp :: "nat \<Rightarrow> nat \<Rightarrow> 'a list list \<Rightarrow> 'a list list" where
  "transp m n M = map (\<lambda>j. map (\<lambda>i. M ! i ! j) [0..<m]) [0..<n]"

text \<open>\<^verbatim>\<open>M[i, j] = v\<close>\<close>

definition set2 :: "'a list list \<Rightarrow> nat \<Rightarrow> nat \<Rightarrow> 'a \<Rightarrow> 'a list list" where
  "set2 M i j v = M[i := (M ! i)[j := v]]"

text \<open>\<^verbatim>\<open>M[k+1:, k]\<close>: the part of column \<open>k\<close> below the diagonal.\<close>

definition col_below :: "'a list list \<Rightarrow> nat \<Rightarrow> 'a list" where
  "col_below M k = map (\<lambda>r. r ! k) (drop (Suc k) M)"

text \<open>\<^verbatim>\<open>M[k+1:, k] = vs\<close>\<close>

definition set_col_below :: "'a list list \<Rightarrow> nat \<Rightarrow> 'a list \<Rightarrow> 'a list list" where
  "set_col_below M k vs = take (Suc k) M @ map2 (\<lambda>r v. r[k := v]) (drop (Suc k) M) vs"

text \<open>\<^verbatim>\<open>w[k+1:] = vs\<close>\<close>

definition set_below :: "'a list \<Rightarrow> nat \<Rightarrow> 'a list \<Rightarrow> 'a list" where
  "set_below w k vs = take (Suc k) w @ vs"

text \<open>\<^verbatim>\<open>c * v\<close> for a scalar \<open>c\<close>, and the entrywise \<^verbatim>\<open>u + v\<close>, \<^verbatim>\<open>u - v\<close> of vectors of one
  length.\<close>

definition v_scale :: "f64 \<Rightarrow> vec \<Rightarrow> vec" where
  "v_scale c v = map (f_mul c) v"

definition v_add :: "vec \<Rightarrow> vec \<Rightarrow> vec" where
  "v_add u v = map2 f_add u v"

definition v_sub :: "vec \<Rightarrow> vec \<Rightarrow> vec" where
  "v_sub u v = map2 f_sub u v"

text \<open>The exceptions of the program. \<open>NotPositiveDefinite\<close> is the
  \<^verbatim>\<open>ValueError("L is not positive definite.")\<close> of \<^verbatim>\<open>chol_downdate\<close>,
  \<open>InvalidPartition\<close> the \<^verbatim>\<open>AssertionError\<close> of \<^verbatim>\<open>chol_super\<close>. The others come from
  the libraries: \<open>NonFinite\<close> is scipy's \<^verbatim>\<open>ValueError("array must not contain infs or NaNs")\<close>,
  \<open>LinAlgError\<close> is raised by \<^verbatim>\<open>la.solve\<close> on a singular matrix and by \<^verbatim>\<open>la.cholesky\<close> on
  a matrix that is not positive definite, \<open>BroadcastError\<close> is numpy's \<^verbatim>\<open>ValueError\<close> for
  operands whose shapes cannot be broadcast together. \<open>DimensionMismatch\<close> stands for
  every failure of a call whose arguments do not have the documented shapes (\<open>(N, N)\<close>
  and \<open>(N,)\<close>); the embedding does not follow numpy through those.\<close>

datatype error =
    NotPositiveDefinite
  | InvalidPartition
  | NonFinite
  | LinAlgError
  | BroadcastError
  | DimensionMismatch

section \<open>Rank-one update and downdate\<close>

text \<open>The state of the loops: the working copies of \<open>L\<close> and \<open>w\<close> and the scale \<open>\<beta>\<close>.\<close>

type_synonym ud_state = "mat \<times> vec \<times> f64"

text \<open>One pass of the body of \<^verbatim>\<open>chol_update\<close> up to the \<^verbatim>\<open>break\<close> test, and the rest of it.\<close>

definition update_head :: "nat \<Rightarrow> ud_state \<Rightarrow> ud_state \<times> f64 \<times> f64 \<times> f64" where
  "update_head j st =
     (case st of (L, w, \<beta>) \<Rightarrow>
        let \<alpha> = f_div (w ! j) (L ! j ! j);
            \<beta>2 = f_sqrt (f_add (f_mul \<beta> \<beta>) (f_mul \<alpha> \<alpha>));
            \<gamma> = f_div \<alpha> (f_mul \<beta>2 \<beta>);
            \<delta> = f_div \<beta> \<beta>2;
            L1 = set2 L j j (f_add (f_mul \<delta> (L ! j ! j)) (f_mul \<gamma> (w ! j)));
            w1 = w[j := \<alpha>]
        in ((L1, w1, \<beta>2), \<alpha>, \<gamma>, \<delta>))"

definition update_tail :: "nat \<Rightarrow> ud_state \<times> f64 \<times> f64 \<times> f64 \<Rightarrow> ud_state" where
  "update_tail j x =
     (case x of ((L, w, \<beta>), \<alpha>, \<gamma>, \<delta>) \<Rightarrow>
        let w1 = drop (Suc j) w;
            w' = set_below w j (v_sub (drop (Suc j) w) (v_scale \<alpha> (col_below L j)));
            L' = set_col_below L j (v_add (v_scale \<delta> (col_below L j)) (v_scale \<gamma> w1))
        in (L', w', \<beta>))"

function update_loop :: "nat \<Rightarrow> nat \<Rightarrow> ud_state \<Rightarrow> ud_state" where
  "update_loop N j st =
     (if j < N then
        (let x = update_head j st
         in if j = N - 1 then fst x else update_loop N (Suc j) (update_tail j x))
      else st)"
  by pat_completeness auto
termination
  by (relation "measure (\<lambda>(N, j, st). N - j)") auto

declare update_loop.simps [simp del]

definition chol_update :: "mat \<Rightarrow> vec \<Rightarrow> error + mat \<times> vec" where
  "chol_update L w =
     (let N = length L
      in if \<not> (is_shape N N L \<and> length w = N) then Inl DimensionMismatch
         else (case update_loop N 0 (L, w, Fin 1) of (L', w', \<beta>) \<Rightarrow> Inr (L', w')))"

text \<open>\<^verbatim>\<open>chol_downdate\<close>: the body raises when \<^verbatim>\<open>\<alpha>**2 >= \<beta>**2\<close>.\<close>

definition downdate_head :: "nat \<Rightarrow> ud_state \<Rightarrow> error + ud_state \<times> f64 \<times> f64 \<times> f64" where
  "downdate_head j st =
     (case st of (L, w, \<beta>) \<Rightarrow>
        let \<alpha> = f_div (w ! j) (L ! j ! j)
        in if f_ge (f_mul \<alpha> \<alpha>) (f_mul \<beta> \<beta>) then Inl NotPositiveDefinite
           else
             let \<beta>2 = f_sqrt (f_sub (f_mul \<beta> \<beta>) (f_mul \<alpha> \<alpha>));
                 \<gamma> = f_div \<alpha> (f_mul \<beta>2 \<beta>);
                 \<delta> = f_div \<beta>2 \<beta>;
                 L1 = set2 L j j (f_mul \<delta> (L ! j ! j));
                 w1 = w[j := \<alpha>]
             in Inr ((L1, w1, \<beta>2), \<alpha>, \<gamma>, \<delta>))"

definition downdate_tail :: "nat \<Rightarrow> ud_state \<times> f64 \<times> f64 \<times> f64 \<Rightarrow> ud_state" where
  "downdate_tail j x =
     (case x of ((L, w, \<beta>), \<alpha>, \<gamma>, \<delta>) \<Rightarrow>
        let w' = set_below w j (v_sub (drop (Suc j) w) (v_scale \<alpha> (col_below L j)));
            L' = set_col_below L j
                   (v_sub (v_scale \<delta> (col_below L j)) (v_scale \<gamma> (drop (Suc j) w')))
        in (L', w', \<beta>))"

function downdate_loop :: "nat \<Rightarrow> nat \<Rightarrow> ud_state \<Rightarrow> error + ud_state" where
  "downdate_loop N j st =
     (if j < N then
        (case downdate_head j st of
           Inl e \<Rightarrow> Inl e
         | Inr x \<Rightarrow> if j = N - 1 then Inr (fst x) else downdate_loop N (Suc j) (downdate_tail j x))
      else Inr st)"
  by pat_completeness auto
termination
  by (relation "measure (\<lambda>(N, j, st). N - j)") auto

declare downdate_loop.simps [simp del]

definition chol_downdate :: "mat \<Rightarrow> vec \<Rightarrow> error + mat \<times> vec" where
  "chol_downdate L w =
     (let N = length L
      in if \<not> (is_shape N N L \<and> length w = N) then Inl DimensionMismatch
         else (case downdate_loop N 0 (L, w, Fin 1) of
                 Inl e \<Rightarrow> Inl e
               | Inr (L', w', \<beta>) \<Rightarrow> Inr (L', w')))"

text \<open>\<^verbatim>\<open>chol_updown\<close>: one loop for both directions, without a test of \<open>\<alpha>\<close> against \<open>\<beta>\<close>
  and without a \<^verbatim>\<open>break\<close>; \<open>N = 1\<close> is computed apart.\<close>

definition updown_step :: "bool \<Rightarrow> f64 \<Rightarrow> nat \<Rightarrow> ud_state \<Rightarrow> ud_state" where
  "updown_step update \<sigma> k st =
     (case st of (L, w, \<beta>) \<Rightarrow>
        let \<alpha> = f_div (w ! k) (L ! k ! k);
            \<beta>2 = f_sqrt (f_add (f_mul \<beta> \<beta>) (f_mul \<sigma> (f_mul \<alpha> \<alpha>)));
            \<gamma> = f_div (f_mul \<sigma> \<alpha>) (f_mul \<beta>2 \<beta>)
        in if update then
             let \<delta> = f_div \<beta> \<beta>2;
                 L1 = set2 L k k (f_add (f_mul \<delta> (L ! k ! k)) (f_mul \<gamma> (w ! k)));
                 w1 = drop (Suc k) w;
                 w' = set_below w k (v_sub (drop (Suc k) w) (v_scale \<alpha> (col_below L1 k)));
                 L' = set_col_below L1 k (v_add (v_scale \<delta> (col_below L1 k)) (v_scale \<gamma> w1))
             in (L', w'[k := \<alpha>], \<beta>2)
           else
             let \<delta> = f_div \<beta>2 \<beta>;
                 L1 = set2 L k k (f_mul \<delta> (L ! k ! k));
                 w' = set_below w k (v_sub (drop (Suc k) w) (v_scale \<alpha> (col_below L1 k)));
                 L' = set_col_below L1 k
                        (v_add (v_scale \<delta> (col_below L1 k)) (v_scale \<gamma> (drop (Suc k) w')))
             in (L', w'[k := \<alpha>], \<beta>2))"

definition chol_updown :: "mat \<Rightarrow> vec \<Rightarrow> bool \<Rightarrow> error + mat \<times> vec" where
  "chol_updown L w update =
     (let N = length L;
          \<sigma> = Fin (if update then 1 else - 1)
      in if \<not> (is_shape N N L \<and> length w = N) then Inl DimensionMismatch
         else if N = 1 then
           Inr ([[f_sqrt (f_add (f_mul (L ! 0 ! 0) (L ! 0 ! 0))
                                (f_mul (f_mul \<sigma> (w ! 0)) (w ! 0)))]], w)
         else (case fold (updown_step update \<sigma>) [0..<N] (L, w, Fin 1) of
                 (L', w', \<beta>) \<Rightarrow> Inr (L', w')))"


section \<open>Library routines the factorizations call\<close>

text \<open>\<^verbatim>\<open>x @ y\<close> of two vectors of one length, \<^verbatim>\<open>X @ y\<close> of an array and a vector, and
  \<^verbatim>\<open>X @ Y.T\<close> of two arrays with the same number of columns.\<close>

definition f_dot :: "vec \<Rightarrow> vec \<Rightarrow> f64" where
  "f_dot x y = foldl f_add (Fin 0) (map2 f_mul x y)"

definition mat_vec :: "mat \<Rightarrow> vec \<Rightarrow> vec" where
  "mat_vec X y = map (\<lambda>r. f_dot r y) X"

definition mat_mul_T :: "mat \<Rightarrow> mat \<Rightarrow> mat" where
  "mat_mul_T X Y = map (\<lambda>r. map (\<lambda>q. f_dot r q) Y) X"

text \<open>\<^verbatim>\<open>M[r1:r2, c1:c2]\<close>\<close>

definition block :: "'a list list \<Rightarrow> nat \<Rightarrow> nat \<Rightarrow> nat \<Rightarrow> nat \<Rightarrow> 'a list list" where
  "block M r1 r2 c1 c2 = map (\<lambda>r. take (c2 - c1) (drop c1 r)) (take (r2 - r1) (drop r1 M))"

text \<open>\<^verbatim>\<open>M[r1:, c1:c1+n] = B\<close> for a block \<open>B\<close> with \<open>n\<close> columns and as many rows as
  \<open>M\<close> has from \<open>r1\<close> on.\<close>

definition set_block :: "'a list list \<Rightarrow> nat \<Rightarrow> nat \<Rightarrow> nat \<Rightarrow> 'a list list \<Rightarrow> 'a list list" where
  "set_block M r1 c1 n B =
     take r1 M @ map2 (\<lambda>r b. take c1 r @ b @ drop (c1 + n) r) (take (length B) (drop r1 M)) B
       @ drop (r1 + length B) M"

definition all_finite :: "mat \<Rightarrow> bool" where
  "all_finite M = list_all (list_all is_fin) M"

text \<open>
  \<^verbatim>\<open>scipy.linalg.solve(a, b)\<close> is a library routine; it is modelled by its contract, for
  the lower-triangular \<open>a\<close> that \<^verbatim>\<open>chol_up\<close> passes (the leading block of \<open>L\<close>, whose
  entries above the diagonal are zero): the arguments are checked for \<^verbatim>\<open>nan\<close> and
  \<^verbatim>\<open>inf\<close> first, a singular \<open>a\<close> raises, and the solution of a triangular system is
  the one forward substitution computes. An empty system has the empty solution.
\<close>

definition forward_subst :: "mat \<Rightarrow> vec \<Rightarrow> vec" where
  "forward_subst a b =
     fold (\<lambda>i x. x @ [f_div (f_sub (b ! i) (f_dot (take i (a ! i)) x)) (a ! i ! i)])
       [0..<length a] []"

definition la_solve :: "mat \<Rightarrow> vec \<Rightarrow> error + vec" where
  "la_solve a b =
     (if \<not> (all_finite a \<and> list_all is_fin b) then Inl NonFinite
      else if list_ex (\<lambda>i. a ! i ! i = Fin 0) [0..<length a] then Inl LinAlgError
      else Inr (forward_subst a b))"

text \<open>
  \<^verbatim>\<open>scipy.linalg.cholesky(a)\<close> is a library routine too (LAPACK's \<^verbatim>\<open>potrf\<close>): it checks
  \<open>a\<close> for \<^verbatim>\<open>nan\<close> and \<^verbatim>\<open>inf\<close>, reads the upper triangle of \<open>a\<close>, raises
  \<^verbatim>\<open>LinAlgError\<close> at the first pivot that is not positive, and returns the upper
  triangular \<open>U\<close> with \<open>U\<^sup>T U = a\<close>. Row \<open>j\<close> of \<open>U\<close> is computed from the rows above it.
\<close>

definition potrf_row :: "mat \<Rightarrow> nat \<Rightarrow> mat \<Rightarrow> error + mat" where
  "potrf_row a j U =
     (let n = length a;
          d = f_sub (a ! j ! j) (f_dot (map (\<lambda>r. r ! j) U) (map (\<lambda>r. r ! j) U))
      in case d of
           Fin x \<Rightarrow>
             if x \<le> 0 then Inl LinAlgError
             else Inr (U @ [map (\<lambda>i. if i < j then Fin 0
                                   else if i = j then Fin (sqrt x)
                                   else f_div (f_sub (a ! j ! i)
                                          (f_dot (map (\<lambda>r. r ! j) U) (map (\<lambda>r. r ! i) U)))
                                          (Fin (sqrt x))) [0..<n]])
         | _ \<Rightarrow> Inl LinAlgError)"

text \<open>A \<^verbatim>\<open>for\<close> loop whose body may raise.\<close>

fun for_loop :: "nat list \<Rightarrow> (nat \<Rightarrow> 'a \<Rightarrow> error + 'a) \<Rightarrow> 'a \<Rightarrow> error + 'a" where
  "for_loop [] body st = Inr st"
| "for_loop (k # ks) body st =
     (case body k st of Inl e \<Rightarrow> Inl e | Inr st' \<Rightarrow> for_loop ks body st')"

definition la_cholesky :: "mat \<Rightarrow> error + mat" where
  "la_cholesky a =
     (if \<not> all_finite a then Inl NonFinite
      else for_loop [0..<length a] (potrf_row a) [])"

section \<open>The factorizations\<close>

text \<open>The result of every factorization: \<^verbatim>\<open>L if lower else L.T\<close>.\<close>

definition oriented :: "bool \<Rightarrow> nat \<Rightarrow> mat \<Rightarrow> mat" where
  "oriented lower N L = (if lower then L else transp N N L)"

subsection \<open>Up-looking\<close>

text \<open>Row \<open>k\<close> of \<open>L\<close> left of the diagonal, the radicand of the diagonal entry, and the
  whole pass of the loop body.\<close>

definition chol_up_row :: "mat \<Rightarrow> nat \<Rightarrow> mat \<Rightarrow> error + mat" where
  "chol_up_row A k L =
     (case la_solve (block L 0 k 0 k) (map (\<lambda>r. r ! k) (take k A)) of
        Inl e \<Rightarrow> Inl e
      | Inr x \<Rightarrow> Inr (L[k := x @ drop k (L ! k)]))"

definition chol_up_radicand :: "mat \<Rightarrow> nat \<Rightarrow> mat \<Rightarrow> f64" where
  "chol_up_radicand A k L = f_sub (A ! k ! k) (f_dot (take k (L ! k)) (take k (L ! k)))"

definition chol_up_step :: "mat \<Rightarrow> nat \<Rightarrow> mat \<Rightarrow> error + mat" where
  "chol_up_step A k L =
     (case chol_up_row A k L of
        Inl e \<Rightarrow> Inl e
      | Inr L1 \<Rightarrow> Inr (set2 L1 k k (f_sqrt (chol_up_radicand A k L1))))"

definition chol_up :: "mat \<Rightarrow> bool \<Rightarrow> error + mat" where
  "chol_up A lower =
     (let N = length A
      in if \<not> is_shape N N A then Inl DimensionMismatch
         else (case for_loop [0..<N] (chol_up_step A) (zeros N N) of
                 Inl e \<Rightarrow> Inl e
               | Inr L \<Rightarrow> Inr (oriented lower N L)))"

subsection \<open>Left-looking\<close>

definition chol_left_step :: "mat \<Rightarrow> nat \<Rightarrow> mat \<Rightarrow> mat" where
  "chol_left_step A k L =
     (let L1 = set2 L k k
                 (f_sqrt (f_sub (A ! k ! k) (f_dot (take k (L ! k)) (take k (L ! k)))));
          L2 = set_col_below L1 k
                 (map (\<lambda>v. f_div v (L1 ! k ! k))
                    (v_sub (col_below A k)
                       (mat_vec (map (take k) (drop (Suc k) L1)) (take k (L1 ! k)))))
      in L2)"

definition chol_left :: "mat \<Rightarrow> bool \<Rightarrow> error + mat" where
  "chol_left A lower =
     (let N = length A
      in if \<not> is_shape N N A then Inl DimensionMismatch
         else Inr (oriented lower N (fold (chol_left_step A) [0..<N] (zeros N N))))"

subsection \<open>Left-looking, accumulating over the nonzero entries of row k\<close>

definition amp_inner :: "nat \<Rightarrow> mat \<Rightarrow> nat \<Rightarrow> vec \<Rightarrow> vec" where
  "amp_inner k L j a =
     take k a @ v_sub (drop k a) (map (\<lambda>r. f_mul (r ! j) (L ! k ! j)) (drop k L))"

definition chol_left_amp_step :: "mat \<Rightarrow> nat \<Rightarrow> mat \<times> vec \<Rightarrow> mat \<times> vec" where
  "chol_left_amp_step A k st =
     (case st of (L, a) \<Rightarrow>
        let a1 = take k a @ map (\<lambda>r. r ! k) (drop k A);
            a2 = fold (amp_inner k L) (filter (\<lambda>j. f_nonzero (L ! k ! j)) [0..<length (L ! k)]) a1;
            L1 = set2 L k k (f_sqrt (a2 ! k));
            L2 = set_col_below L1 k (map (\<lambda>v. f_div v (L1 ! k ! k)) (drop (Suc k) a2))
        in (L2, a2))"

definition chol_left_amp :: "mat \<Rightarrow> bool \<Rightarrow> error + mat" where
  "chol_left_amp A lower =
     (let N = length A
      in if \<not> is_shape N N A then Inl DimensionMismatch
         else Inr (oriented lower N
                (fst (fold (chol_left_amp_step A) [0..<N] (zeros N N, replicate N (Fin 0))))))"

subsection \<open>Right-looking\<close>

definition outer :: "vec \<Rightarrow> mat" where
  "outer v = map (\<lambda>x. map (\<lambda>y. f_mul x y) v) v"

definition chol_right_step :: "nat \<Rightarrow> mat \<times> mat \<Rightarrow> mat \<times> mat" where
  "chol_right_step k st =
     (case st of (A, L) \<Rightarrow>
        let L1 = set2 L k k (f_sqrt (A ! k ! k));
            L2 = set_col_below L1 k (map (\<lambda>v. f_div v (L1 ! k ! k)) (col_below A k));
            A' = take (Suc k) A @
                   map2 (\<lambda>r u. take (Suc k) r @ v_sub (drop (Suc k) r) u)
                     (drop (Suc k) A) (outer (col_below L2 k))
        in (A', L2))"

definition chol_right :: "mat \<Rightarrow> bool \<Rightarrow> error + mat" where
  "chol_right A lower =
     (let N = length A
      in if \<not> is_shape N N A then Inl DimensionMismatch
         else Inr (oriented lower N (snd (fold chol_right_step [0..<N] (A, zeros N N)))))"

subsection \<open>Supernodal\<close>

text \<open>
  numpy's entrywise \<^verbatim>\<open>X / Y\<close> of two-dimensional arrays: an axis of length one is
  stretched to the length of the other operand's axis; two axes of different lengths,
  neither of them one, cannot be broadcast together. The shapes are passed along, since
  an array without rows does not show its number of columns.
\<close>

definition bc_dim :: "nat \<Rightarrow> nat \<Rightarrow> nat option" where
  "bc_dim a b = (if a = b then Some a else if a = 1 then Some b else if b = 1 then Some a else None)"

definition bc_div :: "nat \<times> nat \<Rightarrow> mat \<Rightarrow> nat \<times> nat \<Rightarrow> mat \<Rightarrow> error + (nat \<times> nat) \<times> mat" where
  "bc_div sx X sy Y =
     (case (bc_dim (fst sx) (fst sy), bc_dim (snd sx) (snd sy)) of
        (Some m, Some n) \<Rightarrow>
          Inr ((m, n),
               map (\<lambda>i. map (\<lambda>j. f_div (X ! (if fst sx = 1 then 0 else i) ! (if snd sx = 1 then 0 else j))
                                       (Y ! (if fst sy = 1 then 0 else i) ! (if snd sy = 1 then 0 else j)))
                          [0..<n]) [0..<m])
      | _ \<Rightarrow> Inl BroadcastError)"

text \<open>\<^verbatim>\<open>L[k2:, k1:k2] = R\<close>: the value is broadcast to the shape \<open>(m, n)\<close> of the target, which
  only stretches axes of length one.\<close>

definition assign_bc :: "mat \<Rightarrow> nat \<Rightarrow> nat \<Rightarrow> nat \<times> nat \<Rightarrow> (nat \<times> nat) \<times> mat \<Rightarrow> error + mat" where
  "assign_bc L r1 c1 target R =
     (case R of ((p, q), V) \<Rightarrow>
        if (p = fst target \<or> p = 1) \<and> (q = snd target \<or> q = 1) then
          Inr (set_block L r1 c1 (snd target)
                 (map (\<lambda>i. map (\<lambda>j. V ! (if p = 1 then 0 else i) ! (if q = 1 then 0 else j))
                            [0..<snd target]) [0..<fst target]))
        else Inl BroadcastError)"

definition m_sub :: "mat \<Rightarrow> mat \<Rightarrow> mat" where
  "m_sub X Y = map2 v_sub X Y"

text \<open>\<^verbatim>\<open>ss = np.cumsum(np.r_[0, s])\<close>; the entries of \<open>s\<close> are positive when it is used.\<close>

definition cumsum0 :: "int list \<Rightarrow> nat list" where
  "cumsum0 s = map (\<lambda>j. nat (sum_list (take j s))) [0..<Suc (length s)]"

definition chol_super_step :: "mat \<Rightarrow> nat list \<Rightarrow> nat \<Rightarrow> mat \<Rightarrow> error + mat" where
  "chol_super_step A ss j L =
     (let N = length A; k1 = ss ! j; k2 = ss ! Suc j; n = k2 - k1
      in case la_cholesky (m_sub (block A k1 k2 k1 k2)
                             (mat_mul_T (block L k1 k2 0 k1) (block L k1 k2 0 k1))) of
           Inl e \<Rightarrow> Inl e
         | Inr U \<Rightarrow>
             let L1 = set_block L k1 k1 n (transp n n U)
             in case bc_div (N - k2, n)
                       (m_sub (block A k2 N k1 k2)
                          (mat_mul_T (block L1 k2 N 0 k1) (block L1 k1 k2 0 k1)))
                       (n, n) (transp n n (block L1 k1 k2 k1 k2)) of
                  Inl e \<Rightarrow> Inl e
                | Inr R \<Rightarrow> assign_bc L1 k2 k1 (N - k2, n) R)"

definition chol_super :: "mat \<Rightarrow> int list \<Rightarrow> bool \<Rightarrow> error + mat" where
  "chol_super A s lower =
     (let N = length A
      in if \<not> is_shape N N A then Inl DimensionMismatch
         else if sum_list s \<noteq> int N then Inl InvalidPartition
         else if \<not> list_all (\<lambda>x. 0 < x) s then Inl InvalidPartition
         else (case for_loop [0..<length s] (chol_super_step A (cumsum0 s)) (zeros N N) of
                 Inl e \<Rightarrow> Inl e
               | Inr L \<Rightarrow> Inr (oriented lower N L)))"


section \<open>Notions for the statements and their proofs\<close>

text \<open>Arrays of real numbers, as arrays whose entries are all finite.\<close>

definition fvec :: "real list \<Rightarrow> vec" where
  "fvec v = map Fin v"

definition fmat :: "real list list \<Rightarrow> mat" where
  "fmat M = map (map Fin) M"

text \<open>A square array is lower triangular, has a positive diagonal; \<open>gram L i k\<close> is the
  entry \<open>(i, k)\<close> of \<open>L L\<^sup>T\<close>.\<close>

definition lower_tri :: "real list list \<Rightarrow> bool" where
  "lower_tri L = (\<forall>i<length L. \<forall>j<length L. i < j \<longrightarrow> L ! i ! j = 0)"

definition pos_diag :: "real list list \<Rightarrow> bool" where
  "pos_diag L = (\<forall>i<length L. 0 < L ! i ! i)"

definition gram :: "real list list \<Rightarrow> nat \<Rightarrow> nat \<Rightarrow> real" where
  "gram L i k = (\<Sum>c<length L. L ! i ! c * L ! k ! c)"

text \<open>One pass of the body of \<^verbatim>\<open>chol_update\<close> on real numbers: the same operations on
  the same arrays, with the division and the square root of the reals. It is what the
  body computes as long as no division by zero and no root of a negative number occurs
  (\<open>update_step_sim\<close> below).\<close>

definition update_step_real :: "nat \<Rightarrow> real list list \<times> real list \<times> real \<Rightarrow> real list list \<times> real list \<times> real" where
  "update_step_real j st =
     (case st of (L, w, \<beta>) \<Rightarrow>
        let \<alpha> = w ! j / L ! j ! j;
            \<beta>2 = sqrt (\<beta> * \<beta> + \<alpha> * \<alpha>);
            \<gamma> = \<alpha> / (\<beta>2 * \<beta>);
            \<delta> = \<beta> / \<beta>2;
            L1 = set2 L j j (\<delta> * (L ! j ! j) + \<gamma> * (w ! j));
            w1 = w[j := \<alpha>];
            w' = set_below w1 j (map2 (-) (drop (Suc j) w1) (map ((*) \<alpha>) (col_below L1 j)));
            L' = set_col_below L1 j
                   (map2 (+) (map ((*) \<delta>) (col_below L1 j)) (map ((*) \<gamma>) (drop (Suc j) w1)))
        in (L', w', \<beta>2))"

text \<open>
  The invariant of both loops before column \<open>j\<close>, with \<open>s = 1\<close> for the update and
  \<open>s = -1\<close> for the downdate: \<open>L\<close> is lower triangular with positive diagonal, and
  \<open>L L\<^sup>T + s r r\<^sup>T / \<beta>\<^sup>2 = G\<close>, where \<open>r\<close> is \<open>w\<close> from index \<open>j\<close> on and zero before it.
\<close>

type_synonym rstate = "real list list \<times> real list \<times> real"

definition ud_inv :: "real \<Rightarrow> nat \<Rightarrow> (nat \<Rightarrow> nat \<Rightarrow> real) \<Rightarrow> nat \<Rightarrow> rstate \<Rightarrow> bool" where
  "ud_inv s N G j st =
     (case st of (L, w, \<beta>) \<Rightarrow>
        is_shape N N L \<and> length w = N \<and> 0 < \<beta>
        \<and> (\<forall>i<N. 0 < L ! i ! i)
        \<and> (\<forall>i<N. \<forall>c<N. i < c \<longrightarrow> L ! i ! c = 0)
        \<and> (\<forall>i<N. \<forall>k<N.
              (\<Sum>c<N. L ! i ! c * L ! k ! c)
              + s * ((if i < j then 0 else w ! i) * (if k < j then 0 else w ! k)) / (\<beta> * \<beta>)
              = G i k))"

text \<open>One pass of the body of \<^verbatim>\<open>chol_downdate\<close> on real numbers; \<open>None\<close> when the test
  \<^verbatim>\<open>\<alpha>**2 >= \<beta>**2\<close> fires.\<close>

definition downdate_step_real :: "nat \<Rightarrow> rstate \<Rightarrow> rstate option" where
  "downdate_step_real j st =
     (case st of (L, w, \<beta>) \<Rightarrow>
        let \<alpha> = w ! j / L ! j ! j
        in if \<beta> * \<beta> \<le> \<alpha> * \<alpha> then None
           else
             let \<beta>2 = sqrt (\<beta> * \<beta> - \<alpha> * \<alpha>);
                 \<gamma> = \<alpha> / (\<beta>2 * \<beta>);
                 \<delta> = \<beta>2 / \<beta>;
                 L1 = set2 L j j (\<delta> * (L ! j ! j));
                 w1 = w[j := \<alpha>];
                 w' = set_below w1 j (map2 (-) (drop (Suc j) w1) (map ((*) \<alpha>) (col_below L1 j)));
                 L' = set_col_below L1 j
                        (map2 (-) (map ((*) \<delta>) (col_below L1 j)) (map ((*) \<gamma>) (drop (Suc j) w')))
             in Some (L', w', \<beta>2))"

text \<open>One whole pass of the body of \<^verbatim>\<open>chol_downdate\<close>. On the last column the slices
  after the \<^verbatim>\<open>break\<close> are empty, so the loop is the iteration of this step
  (\<open>downdate_loop_step\<close> below).\<close>

definition downdate_step :: "nat \<Rightarrow> ud_state \<Rightarrow> error + ud_state" where
  "downdate_step j st =
     (case downdate_head j st of Inl e \<Rightarrow> Inl e | Inr x \<Rightarrow> Inr (downdate_tail j x))"

text \<open>The running state of \<^verbatim>\<open>chol_downdate\<close> before column \<open>j\<close>, and the test it makes
  there: \<^verbatim>\<open>\<alpha>**2 >= \<beta>**2\<close> for \<^verbatim>\<open>\<alpha> = w[j] / L[j, j]\<close>.\<close>

definition downdate_prefix :: "nat \<Rightarrow> mat \<Rightarrow> vec \<Rightarrow> error + ud_state" where
  "downdate_prefix j L w = for_loop [0..<j] downdate_step (L, w, Fin 1)"

definition downdate_guard :: "nat \<Rightarrow> ud_state \<Rightarrow> bool" where
  "downdate_guard j st =
     (case st of (L, w, \<beta>) \<Rightarrow>
        let \<alpha> = f_div (w ! j) (L ! j ! j) in f_ge (f_mul \<alpha> \<alpha>) (f_mul \<beta> \<beta>))"

text \<open>
  The caller's arrays. A call of \<^verbatim>\<open>chol_downdate\<close> gets references to two arrays of the
  caller; \<^verbatim>\<open>np.ascontiguousarray(x).copy()\<close> allocates a new array with the entries of
  \<open>x\<close>, and the loop writes to the two copies in place. The store holds the
  two-dimensional arrays and the vectors, a reference is an index, and a new array is
  appended.
\<close>

record store =
  mats :: "mat list"
  vecs :: "vec list"

definition copy_mat :: "store \<Rightarrow> nat \<Rightarrow> store \<times> nat" where
  "copy_mat \<sigma> p = (\<sigma>\<lparr>mats := mats \<sigma> @ [mats \<sigma> ! p]\<rparr>, length (mats \<sigma>))"

definition copy_vec :: "store \<Rightarrow> nat \<Rightarrow> store \<times> nat" where
  "copy_vec \<sigma> p = (\<sigma>\<lparr>vecs := vecs \<sigma> @ [vecs \<sigma> ! p]\<rparr>, length (vecs \<sigma>))"

definition write_arrays :: "nat \<Rightarrow> nat \<Rightarrow> mat \<Rightarrow> vec \<Rightarrow> store \<Rightarrow> store" where
  "write_arrays aL aw L w \<sigma> = \<sigma>\<lparr>mats := (mats \<sigma>)[aL := L], vecs := (vecs \<sigma>)[aw := w]\<rparr>"

function downdate_loop_store ::
  "nat \<Rightarrow> nat \<Rightarrow> nat \<Rightarrow> nat \<Rightarrow> f64 \<Rightarrow> store \<Rightarrow> store \<times> (error + unit)" where
  "downdate_loop_store N aL aw j \<beta> \<sigma> =
     (if j < N then
        (case downdate_head j (mats \<sigma> ! aL, vecs \<sigma> ! aw, \<beta>) of
           Inl e \<Rightarrow> (\<sigma>, Inl e)
         | Inr x \<Rightarrow>
             (case x of ((L1, w1, \<beta>2), \<alpha>, \<gamma>, \<delta>) \<Rightarrow>
                let \<sigma>1 = write_arrays aL aw L1 w1 \<sigma>
                in if j = N - 1 then (\<sigma>1, Inr ())
                   else (case downdate_tail j x of
                           (L2, w2, \<beta>') \<Rightarrow>
                             downdate_loop_store N aL aw (Suc j) \<beta>' (write_arrays aL aw L2 w2 \<sigma>1))))
      else (\<sigma>, Inr ()))"
  by pat_completeness auto

termination
  by (relation "measure (\<lambda>(N, aL, aw, j, \<beta>, \<sigma>). N - j)") auto

definition chol_downdate_call :: "store \<Rightarrow> nat \<Rightarrow> nat \<Rightarrow> store \<times> (error + nat \<times> nat)" where
  "chol_downdate_call \<sigma> pL pw =
     (case copy_mat \<sigma> pL of
        (\<sigma>1, aL) \<Rightarrow>
          (case copy_vec \<sigma>1 pw of
             (\<sigma>2, aw) \<Rightarrow>
               let N = length (mats \<sigma>2 ! aL)
               in if \<not> (is_shape N N (mats \<sigma>2 ! aL) \<and> length (vecs \<sigma>2 ! aw) = N)
                  then (\<sigma>2, Inl DimensionMismatch)
                  else (case downdate_loop_store N aL aw 0 (Fin 1) \<sigma>2 of
                          (\<sigma>3, Inl e) \<Rightarrow> (\<sigma>3, Inl e)
                        | (\<sigma>3, Inr u) \<Rightarrow> (\<sigma>3, Inr (aL, aw)))))"

text \<open>What a run of the loop on the store has to do with the run on the values: it writes
  to the two working arrays only, and ends with the same error or the same arrays.\<close>

definition store_run_ok :: "nat \<Rightarrow> nat \<Rightarrow> store \<Rightarrow> store \<times> (error + unit) \<Rightarrow> error + ud_state \<Rightarrow> bool" where
  "store_run_ok aL aw \<sigma> res pure =
     (case res of (\<sigma>', r) \<Rightarrow>
        length (mats \<sigma>') = length (mats \<sigma>) \<and> length (vecs \<sigma>') = length (vecs \<sigma>)
        \<and> (\<forall>p. p \<noteq> aL \<longrightarrow> mats \<sigma>' ! p = mats \<sigma> ! p)
        \<and> (\<forall>p. p \<noteq> aw \<longrightarrow> vecs \<sigma>' ! p = vecs \<sigma> ! p)
        \<and> (case pure of
              Inl e \<Rightarrow> r = Inl e
            | Inr (L', w', \<beta>') \<Rightarrow> r = Inr () \<and> mats \<sigma>' ! aL = L' \<and> vecs \<sigma>' ! aw = w'))"

text \<open>One pass of the body of \<^verbatim>\<open>chol_left\<close> on real numbers, entry by entry: column \<open>k\<close>
  from the diagonal down is computed from the columns before it. It is what the body
  computes when the radicand is positive (\<open>chol_left_step_sim\<close> below).\<close>

definition left_step_real :: "real list list \<Rightarrow> nat \<Rightarrow> real list list \<Rightarrow> real list list" where
  "left_step_real A k L =
     (let N = length A;
          x = A ! k ! k - (\<Sum>c<k. L ! k ! c * L ! k ! c)
      in map (\<lambda>i. map (\<lambda>c. if c = k \<and> k \<le> i
                              then (if i = k then sqrt x
                                    else (A ! i ! k - (\<Sum>d<k. L ! i ! d * L ! k ! d)) / sqrt x)
                              else L ! i ! c) [0..<N]) [0..<N])"

text \<open>A square array of reals is symmetric positive definite: \<open>x\<^sup>T A x > 0\<close> for every
  vector \<open>x\<close> that is not zero (a vector is given by its entries \<open>x 0, \<dots>, x (N - 1)\<close>).\<close>

definition spd :: "real list list \<Rightarrow> bool" where
  "spd A =
     (let N = length A
      in (\<forall>i<N. \<forall>j<N. A ! i ! j = A ! j ! i)
         \<and> (\<forall>x :: nat \<Rightarrow> real. (\<exists>i<N. x i \<noteq> 0) \<longrightarrow> 0 < (\<Sum>i<N. \<Sum>j<N. x i * A ! i ! j * x j)))"

text \<open>The invariant of the left-looking loop before column \<open>k\<close>: the columns before \<open>k\<close>
  are lower triangular with positive diagonal and reproduce the lower triangle of the
  same columns of \<open>A\<close>; the other columns are zero.\<close>

definition left_inv :: "real list list \<Rightarrow> nat \<Rightarrow> real list list \<Rightarrow> bool" where
  "left_inv A k L =
     (let N = length A
      in is_shape N N L
         \<and> (\<forall>i<N. \<forall>c<N. k \<le> c \<or> i < c \<longrightarrow> L ! i ! c = 0)
         \<and> (\<forall>c<k. 0 < L ! c ! c)
         \<and> (\<forall>c<k. \<forall>i<N. c \<le> i \<longrightarrow> (\<Sum>d<Suc c. L ! i ! d * L ! c ! d) = A ! i ! c))"

text \<open>What the working copy of \<open>w\<close> holds before column \<open>j\<close> of the update: the entries
  before \<open>j\<close> solve the first rows of \<open>L0 x = w0\<close>, the entries from \<open>j\<close> on are what is left
  of \<open>w0\<close>; and the columns of \<open>L\<close> from \<open>j\<close> on are still those of \<open>L0\<close>.\<close>

definition solve_inv :: "real list list \<Rightarrow> real list \<Rightarrow> nat \<Rightarrow> nat \<Rightarrow> rstate \<Rightarrow> bool" where
  "solve_inv L0 w0 N j st =
     (case st of (L, w, \<beta>) \<Rightarrow>
        (\<forall>i<N. \<forall>c<N. j \<le> c \<longrightarrow> L ! i ! c = L0 ! i ! c)
        \<and> (\<forall>i<N. (\<Sum>c<j. L0 ! i ! c * w ! c) + (if j \<le> i then w ! i else 0) = w0 ! i))"

text \<open>The first \<open>k\<close> columns of the factor, by the left-looking recurrence on the reals.\<close>

definition left_columns_real :: "real list list \<Rightarrow> nat \<Rightarrow> real list list" where
  "left_columns_real A k = fold (left_step_real A) [0..<k] (map (map (\<lambda>_. 0)) A)"

text \<open>The invariant of the right-looking loop before column \<open>k\<close>: the columns of \<open>L\<close> are
  those of the left-looking recurrence, and the working copy of \<open>A\<close> holds, from row and
  column \<open>k\<close> on, \<open>A\<close> minus the contribution of the columns before \<open>k\<close>.\<close>

definition right_inv :: "real list list \<Rightarrow> nat \<Rightarrow> real list list \<times> real list list \<Rightarrow> bool" where
  "right_inv A k st =
     (case st of (Aw, L) \<Rightarrow>
        let N = length A
        in L = left_columns_real A k \<and> is_shape N N Aw
           \<and> (\<forall>i<N. \<forall>j<N. k \<le> i \<and> k \<le> j \<longrightarrow>
                 Aw ! i ! j = A ! i ! j - (\<Sum>c<k. L ! i ! c * L ! j ! c)))"

text \<open>Before row \<open>k\<close> the up-looking loop holds the first \<open>k\<close> rows of the factor, and zeros
  below them.\<close>

definition up_rows :: "real list list \<Rightarrow> nat \<Rightarrow> real list list" where
  "up_rows F k = map (\<lambda>i. map (\<lambda>c. if i < k then F ! i ! c else 0) [0..<length F]) [0..<length F]"

section \<open>Rank-one update with overflow\<close>

text \<open>
  A \<^verbatim>\<open>float64\<close> operation whose exact result has magnitude \<open>2\<^sup>1\<^sup>0\<^sup>2\<^sup>4 - 2\<^sup>9\<^sup>7\<^sup>0\<close> or more
  (the largest finite value plus half a unit in its last place) returns an infinity;
  numpy warns and goes on. \<open>ovf\<close> is that step, and \<open>o_add\<close>, \<open>o_sub\<close>, \<open>o_mul\<close>, \<open>o_div\<close>
  are the operations followed by it. Results below the threshold stay exact: rounding
  and underflow are not modelled.
\<close>

definition f64_overflow :: real where
  "f64_overflow = 2 ^ 1024 - 2 ^ 970"

fun ovf :: "f64 \<Rightarrow> f64" where
  "ovf (Fin a) =
     (if f64_overflow \<le> a then PInf else if a \<le> - f64_overflow then NInf else Fin a)"
| "ovf PInf = PInf"
| "ovf NInf = NInf"
| "ovf NaN = NaN"

definition o_add :: "f64 \<Rightarrow> f64 \<Rightarrow> f64" where
  "o_add a b = ovf (f_add a b)"

definition o_sub :: "f64 \<Rightarrow> f64 \<Rightarrow> f64" where
  "o_sub a b = ovf (f_sub a b)"

definition o_mul :: "f64 \<Rightarrow> f64 \<Rightarrow> f64" where
  "o_mul a b = ovf (f_mul a b)"

definition o_div :: "f64 \<Rightarrow> f64 \<Rightarrow> f64" where
  "o_div a b = ovf (f_div a b)"

text \<open>\<^verbatim>\<open>chol_update\<close> once more, line by line, on these operations (a square root does
  not overflow).\<close>

definition update_head_ovf :: "nat \<Rightarrow> ud_state \<Rightarrow> ud_state \<times> f64 \<times> f64 \<times> f64" where
  "update_head_ovf j st =
     (case st of (L, w, \<beta>) \<Rightarrow>
        let \<alpha> = o_div (w ! j) (L ! j ! j);
            \<beta>2 = f_sqrt (o_add (o_mul \<beta> \<beta>) (o_mul \<alpha> \<alpha>));
            \<gamma> = o_div \<alpha> (o_mul \<beta>2 \<beta>);
            \<delta> = o_div \<beta> \<beta>2;
            L1 = set2 L j j (o_add (o_mul \<delta> (L ! j ! j)) (o_mul \<gamma> (w ! j)));
            w1 = w[j := \<alpha>]
        in ((L1, w1, \<beta>2), \<alpha>, \<gamma>, \<delta>))"

definition update_tail_ovf :: "nat \<Rightarrow> ud_state \<times> f64 \<times> f64 \<times> f64 \<Rightarrow> ud_state" where
  "update_tail_ovf j x =
     (case x of ((L, w, \<beta>), \<alpha>, \<gamma>, \<delta>) \<Rightarrow>
        let w1 = drop (Suc j) w;
            w' = set_below w j (map2 o_sub (drop (Suc j) w) (map (o_mul \<alpha>) (col_below L j)));
            L' = set_col_below L j
                   (map2 o_add (map (o_mul \<delta>) (col_below L j)) (map (o_mul \<gamma>) w1))
        in (L', w', \<beta>))"

function update_loop_ovf :: "nat \<Rightarrow> nat \<Rightarrow> ud_state \<Rightarrow> ud_state" where
  "update_loop_ovf N j st =
     (if j < N then
        (let x = update_head_ovf j st
         in if j = N - 1 then fst x else update_loop_ovf N (Suc j) (update_tail_ovf j x))
      else st)"
  by pat_completeness auto

termination
  by (relation "measure (\<lambda>(N, j, st). N - j)") auto

declare update_loop_ovf.simps [simp del]

definition chol_update_ovf :: "mat \<Rightarrow> vec \<Rightarrow> error + mat \<times> vec" where
  "chol_update_ovf L w =
     (let N = length L
      in if \<not> (is_shape N N L \<and> length w = N) then Inl DimensionMismatch
         else (case update_loop_ovf N 0 (L, w, Fin 1) of (L', w', \<beta>) \<Rightarrow> Inr (L', w')))"

section \<open>Evaluation on concrete arrays\<close>

lemma sqrt_of_square: "0 \<le> b \<Longrightarrow> a = b * b \<Longrightarrow> sqrt a = b"
  by (simp add: real_sqrt_mult)

lemma sqrt_4: "sqrt 4 = 2"
  by (rule sqrt_of_square) simp_all

lemma sqrt_25_16: "sqrt (25 / 16) = 5 / 4"
  by (rule sqrt_of_square) simp_all

lemmas array_eval =
  is_shape_def zeros_def transp_def set2_def col_below_def set_col_below_def set_below_def
  v_scale_def v_add_def v_sub_def f_sub_def f_dot_def mat_vec_def mat_mul_T_def block_def
  set_block_def all_finite_def Let_def oriented_def outer_def m_sub_def

lemmas updown_eval =
  chol_update_def chol_downdate_def chol_updown_def update_loop.simps update_head_def
  update_tail_def downdate_loop.simps downdate_head_def downdate_tail_def updown_step_def

lemmas factor_eval =
  chol_up_def chol_up_step_def chol_up_row_def chol_up_radicand_def la_solve_def
  forward_subst_def chol_left_def chol_left_step_def chol_left_amp_def chol_left_amp_step_def
  amp_inner_def chol_right_def chol_right_step_def chol_super_def chol_super_step_def
  la_cholesky_def potrf_row_def bc_div_def bc_dim_def assign_bc_def cumsum0_def

section \<open>The unified entry point against update and downdate\<close>

text \<open>
  C5. \<^verbatim>\<open>chol_updown\<close> does not return what \<^verbatim>\<open>chol_update\<close> and \<^verbatim>\<open>chol_downdate\<close> return.
  For \<open>N = 1\<close> it returns \<open>w\<close> as it came, where \<^verbatim>\<open>chol_update\<close> returns \<open>w / L\<close>; and in
  the downdate direction it never raises: where \<^verbatim>\<open>chol_downdate\<close> fails because
  \<open>\<alpha>\<^sup>2 \<ge> \<beta>\<^sup>2\<close>, it returns arrays of \<^verbatim>\<open>nan\<close>, for \<open>N = 1\<close> and for \<open>N = 2\<close> alike.
\<close>

theorem chol_updown_differs:
  "chol_update [[Fin 4]] [Fin 3] = Inr ([[Fin 5]], [Fin (3 / 4)])
   \<and> chol_updown [[Fin 4]] [Fin 3] True = Inr ([[Fin 5]], [Fin 3])
   \<and> chol_downdate [[Fin 1]] [Fin 2] = Inl NotPositiveDefinite
   \<and> chol_updown [[Fin 1]] [Fin 2] False = Inr ([[NaN]], [Fin 2])
   \<and> chol_downdate [[Fin 1, Fin 0], [Fin 0, Fin 1]] [Fin 2, Fin 0] = Inl NotPositiveDefinite
   \<and> chol_updown [[Fin 1, Fin 0], [Fin 0, Fin 1]] [Fin 2, Fin 0] False
       = Inr ([[NaN, Fin 0], [NaN, NaN]], [Fin 2, Fin 0])"
  by (simp add: updown_eval array_eval sqrt_25_16)

section \<open>The second return value\<close>

text \<open>
  C6. For \<open>N = 1\<close> the second return value of \<^verbatim>\<open>chol_updown\<close> in the update direction is
  \<open>w\<close> itself, not the solution of \<open>L x = w\<close>: with \<open>L = (4)\<close> and \<open>w = (3)\<close> the solution
  is \<open>x = (3/4)\<close>, which \<^verbatim>\<open>chol_update\<close> returns, and \<^verbatim>\<open>chol_updown\<close> returns \<open>(3)\<close>.
\<close>

theorem chol_updown_second_value:
  "la_solve [[Fin 4]] [Fin 3] = Inr [Fin (3 / 4)]
   \<and> map_sum id snd (chol_update [[Fin 4]] [Fin 3]) = Inr [Fin (3 / 4)]
   \<and> map_sum id snd (chol_updown [[Fin 4]] [Fin 3] True) = Inr [Fin 3]"
  by (simp add: updown_eval factor_eval array_eval sqrt_25_16)

section \<open>The supernodal factorization\<close>



text \<open>
  C1. With a block of more than one column \<^verbatim>\<open>chol_super\<close> returns no factor: the rows
  below the block are divided by the block's factor entry by entry, not solved
  against it, and for the last block (no rows below it) the shapes \<open>(0, n)\<close> and
  \<open>(n, n)\<close> cannot be broadcast together. The matrix is positive definite
  (\<open>spd_example\<close> below), and the other variants, and \<^verbatim>\<open>chol_super\<close> with the partition
  of all ones, return its factor.
\<close>

theorem chol_super_block_fails:
  "chol_super [[Fin 4, Fin 2], [Fin 2, Fin 5]] [2] True = Inl BroadcastError
   \<and> chol_up [[Fin 4, Fin 2], [Fin 2, Fin 5]] True = Inr [[Fin 2, Fin 0], [Fin 1, Fin 2]]
   \<and> chol_left [[Fin 4, Fin 2], [Fin 2, Fin 5]] True = Inr [[Fin 2, Fin 0], [Fin 1, Fin 2]]
   \<and> chol_left_amp [[Fin 4, Fin 2], [Fin 2, Fin 5]] True = Inr [[Fin 2, Fin 0], [Fin 1, Fin 2]]
   \<and> chol_right [[Fin 4, Fin 2], [Fin 2, Fin 5]] True = Inr [[Fin 2, Fin 0], [Fin 1, Fin 2]]
   \<and> chol_super [[Fin 4, Fin 2], [Fin 2, Fin 5]] [1, 1] True
       = Inr [[Fin 2, Fin 0], [Fin 1, Fin 2]]"
  by (simp add: factor_eval array_eval sqrt_4)

section \<open>A negative radicand in the up-looking factorization\<close>

text \<open>
  C4, as stated, fails: for the symmetric matrix with rows \<open>(1, 2)\<close> and \<open>(2, 1)\<close> the
  radicand of the second row is \<open>1 - 4 = -3\<close>, and \<^verbatim>\<open>chol_up\<close> returns a factor, with
  \<^verbatim>\<open>nan\<close> on the diagonal.
\<close>

theorem chol_up_negative_radicand_returns:
  "chol_up_row [[Fin 1, Fin 2], [Fin 2, Fin 1]] 1 [[Fin 1, Fin 0], [Fin 0, Fin 0]]
     = Inr [[Fin 1, Fin 0], [Fin 2, Fin 0]]
   \<and> chol_up_radicand [[Fin 1, Fin 2], [Fin 2, Fin 1]] 1 [[Fin 1, Fin 0], [Fin 2, Fin 0]] = Fin (- 3)
   \<and> chol_up [[Fin 1, Fin 2], [Fin 2, Fin 1]] True = Inr [[Fin 1, Fin 0], [Fin 2, NaN]]"
  by (simp add: factor_eval array_eval)

section \<open>Arrays: shapes and entries\<close>

lemma is_shape_iff: "is_shape m n M \<longleftrightarrow> length M = m \<and> (\<forall>i<m. length (M ! i) = n)"
  by (auto simp: is_shape_def list_all_length)

lemma is_shape_length: "is_shape m n M \<Longrightarrow> length M = m"
  by (simp add: is_shape_iff)

lemma is_shape_row: "is_shape m n M \<Longrightarrow> i < m \<Longrightarrow> length (M ! i) = n"
  by (simp add: is_shape_iff)

lemma shape_set2: "is_shape m n M \<Longrightarrow> is_shape m n (set2 M i j v)"
  by (cases "i < m") (auto simp: is_shape_iff set2_def nth_list_update)

lemma nth_set2:
  "is_shape m n M \<Longrightarrow> i < m \<Longrightarrow> j < n \<Longrightarrow>
   set2 M i j v ! i' ! j' = (if i' = i \<and> j' = j then v else M ! i' ! j')"
  by (auto simp: is_shape_iff set2_def nth_list_update)

lemma length_col_below: "length (col_below M k) = length M - Suc k"
  by (simp add: col_below_def)

lemma nth_col_below: "Suc k + i < length M \<Longrightarrow> col_below M k ! i = M ! (Suc k + i) ! k"
  using nth_drop [of "Suc k" M i] by (simp add: col_below_def del: drop_Suc)

lemma shape_set_col_below:
  "is_shape m n M \<Longrightarrow> length vs = m - Suc k \<Longrightarrow> is_shape m n (set_col_below M k vs)"
  by (auto simp: is_shape_iff set_col_below_def nth_append min_def)

lemma nth_set_col_below:
  "is_shape m n M \<Longrightarrow> length vs = m - Suc k \<Longrightarrow> i < m \<Longrightarrow> k < n \<Longrightarrow>
   set_col_below M k vs ! i ! c = (if k < i \<and> c = k then vs ! (i - Suc k) else M ! i ! c)"
  by (auto simp: is_shape_iff set_col_below_def nth_append min_def nth_list_update)

lemma length_set_below: "length vs = length w - Suc k \<Longrightarrow> k < length w \<Longrightarrow> length (set_below w k vs) = length w"
  by (simp add: set_below_def)

lemma nth_set_below:
  "k < length w \<Longrightarrow> set_below w k vs ! i = (if i \<le> k then w ! i else vs ! (i - Suc k))"
  by (auto simp: set_below_def nth_append)

lemma length_fvec [simp]: "length (fvec v) = length v"
  by (simp add: fvec_def)

lemma nth_fvec: "i < length v \<Longrightarrow> fvec v ! i = Fin (v ! i)"
  by (simp add: fvec_def)

lemma is_shape_fmat [simp]: "is_shape m n (fmat M) = is_shape m n M"
  by (auto simp: is_shape_iff fmat_def)

lemma length_fmat [simp]: "length (fmat M) = length M"
  by (simp add: fmat_def)

lemma nth_fmat: "is_shape m n M \<Longrightarrow> i < m \<Longrightarrow> j < n \<Longrightarrow> fmat M ! i ! j = Fin (M ! i ! j)"
  by (simp add: is_shape_iff fmat_def)

lemma set2_fmat: "set2 (fmat M) i j (Fin v) = fmat (set2 M i j v)"
  by (cases "i < length M") (simp_all add: set2_def fmat_def map_update list_update_beyond)

lemma f_div_Fin: "b \<noteq> 0 \<Longrightarrow> f_div (Fin a) (Fin b) = Fin (a / b)"
  by simp

lemma f_sqrt_Fin: "0 \<le> a \<Longrightarrow> f_sqrt (Fin a) = Fin (sqrt a)"
  by simp

lemma update_fvec: "(fvec w)[j := Fin a] = fvec (w[j := a])"
  by (simp add: fvec_def map_update)

lemma drop_fvec: "drop k (fvec v) = fvec (drop k v)"
  by (simp add: fvec_def drop_map)

lemma col_below_fmat:
  "is_shape m n M \<Longrightarrow> k < n \<Longrightarrow> col_below (fmat M) k = fvec (col_below M k)"
  by (auto simp: col_below_def fmat_def fvec_def drop_map is_shape_def list_all_iff
           dest: in_set_dropD)

lemma v_scale_fvec: "v_scale (Fin c) (fvec v) = fvec (map ((*) c) v)"
  by (simp add: v_scale_def fvec_def)

lemma v_sub_fvec: "v_sub (fvec u) (fvec v) = fvec (map2 (-) u v)"
  by (auto simp: v_sub_def fvec_def f_sub_def zip_map_map)

lemma v_add_fvec: "v_add (fvec u) (fvec v) = fvec (map2 (+) u v)"
  by (auto simp: v_add_def fvec_def zip_map_map)

lemma set_below_fvec: "set_below (fvec w) k (fvec vs) = fvec (set_below w k vs)"
  by (simp add: set_below_def fvec_def take_map)

lemma set_col_below_fmat: "set_col_below (fmat M) k (fvec vs) = fmat (set_col_below M k vs)"
  by (auto simp: set_col_below_def fmat_def fvec_def take_map drop_map zip_map_map map_update)

lemmas fin_hom = set2_fmat update_fvec drop_fvec v_scale_fvec v_sub_fvec v_add_fvec
  set_below_fvec set_col_below_fmat

lemma update_step_sim:
  assumes sh: "is_shape N N L" "length w = N" and j: "j < N"
    and nz: "L ! j ! j \<noteq> 0" and b: "0 < \<beta>"
  shows "update_tail j (update_head j (fmat L, fvec w, Fin \<beta>))
         = (case update_step_real j (L, w, \<beta>) of (L', w', \<beta>') \<Rightarrow> (fmat L', fvec w', Fin \<beta>'))"
proof -
  define \<alpha> where "\<alpha> = w ! j / L ! j ! j"
  define \<beta>2 where "\<beta>2 = sqrt (\<beta> * \<beta> + \<alpha> * \<alpha>)"
  define \<gamma> where "\<gamma> = \<alpha> / (\<beta>2 * \<beta>)"
  define \<delta> where "\<delta> = \<beta> / \<beta>2"
  define L1 where "L1 = set2 L j j (\<delta> * (L ! j ! j) + \<gamma> * (w ! j))"
  have pos: "0 < \<beta> * \<beta> + \<alpha> * \<alpha>"
    using b by (simp add: add_pos_nonneg)
  then have b2: "0 < \<beta>2" by (simp add: \<beta>2_def)
  have wj: "fvec w ! j = Fin (w ! j)" and ljj: "fmat L ! j ! j = Fin (L ! j ! j)"
    using sh j by (simp_all add: nth_fvec nth_fmat [OF sh(1)])
  have a: "f_div (Fin (w ! j)) (Fin (L ! j ! j)) = Fin \<alpha>"
    using nz by (simp add: \<alpha>_def)
  have r: "f_sqrt (f_add (f_mul (Fin \<beta>) (Fin \<beta>)) (f_mul (Fin \<alpha>) (Fin \<alpha>))) = Fin \<beta>2"
    using pos by (simp add: \<beta>2_def)
  have g: "f_div (Fin \<alpha>) (f_mul (Fin \<beta>2) (Fin \<beta>)) = Fin \<gamma>"
    using b b2 by (simp add: \<gamma>_def)
  have d: "f_div (Fin \<beta>) (Fin \<beta>2) = Fin \<delta>"
    using b2 by (simp add: \<delta>_def)
  have head: "update_head j (fmat L, fvec w, Fin \<beta>)
      = ((fmat L1, fvec (w[j := \<alpha>]), Fin \<beta>2), Fin \<alpha>, Fin \<gamma>, Fin \<delta>)"
    by (simp add: update_head_def Let_def wj ljj a r g d L1_def update_fvec
        del: f_div.simps f_sqrt.simps f_mul.simps f_add.simps)
      (simp add: set2_fmat)
  have sh1: "is_shape N N L1"
    unfolding L1_def using sh(1) by (rule shape_set2)
  have twin: "update_step_real j (L, w, \<beta>)
      = (set_col_below L1 j (map2 (+) (map ((*) \<delta>) (col_below L1 j))
                                     (map ((*) \<gamma>) (drop (Suc j) (w[j := \<alpha>])))),
         set_below (w[j := \<alpha>]) j
           (map2 (-) (drop (Suc j) (w[j := \<alpha>])) (map ((*) \<alpha>) (col_below L1 j))),
         \<beta>2)"
    by (simp only: update_step_real_def Let_def prod.case L1_def \<delta>_def \<gamma>_def \<beta>2_def \<alpha>_def)
  show ?thesis
    unfolding head twin
    by (simp add: update_tail_def Let_def fin_hom col_below_fmat [OF sh1 j])
qed

lemma sum_replace_one:
  fixes f :: "nat \<Rightarrow> real"
  assumes "j < N"
  shows "(\<Sum>c<N. if c = j then a else f c) = (\<Sum>c<N. f c) - f j + a"
proof -
  have fin: "finite {..<N}" and mem: "j \<in> {..<N}" using assms by auto
  have "(\<Sum>c<N. if c = j then a else f c) = a + (\<Sum>c\<in>{..<N} - {j}. if c = j then a else f c)"
    using sum.remove [OF fin mem, of "\<lambda>c. if c = j then a else f c"] by simp
  also have "(\<Sum>c\<in>{..<N} - {j}. if c = j then a else f c) = (\<Sum>c\<in>{..<N} - {j}. f c)"
    by (rule sum.cong) auto
  also have "\<dots> = (\<Sum>c<N. f c) - f j"
    using sum.remove [OF fin mem, of f] by simp
  finally show ?thesis by simp
qed

lemma ring_plus:
  fixes \<alpha> \<beta> :: real
  shows "(\<beta> * \<beta> * li + \<alpha> * ri) * (\<beta> * \<beta> * lk + \<alpha> * rk) + (\<beta> * \<beta>) * ((ri - \<alpha> * li) * (rk - \<alpha> * lk))
         = (\<beta> * \<beta> * (li * lk) + ri * rk) * (\<beta> * \<beta> + \<alpha> * \<alpha>)"
  by (simp add: algebra_simps)

lemma quot_plus:
  fixes P b2 :: real
  assumes "0 < P" "0 < b2"
    and "u + b2 * v = (b2 * x + y) * P"
  shows "u / (P * b2) + v / P = x + y / b2"
proof -
  have "u / (P * b2) + v / P = (u + b2 * v) / (P * b2)"
    using assms(1,2) by (simp add: field_simps)
  also have "\<dots> = (b2 * x + y) * P / (P * b2)"
    by (simp only: assms(3))
  also have "\<dots> = x + y / b2"
    using assms(1,2) by (simp add: field_simps)
  finally show ?thesis .
qed

lemma rotation_identity_plus:
  fixes \<alpha> \<beta> :: real
  assumes b: "0 < \<beta>"
  defines "\<beta>2 \<equiv> sqrt (\<beta> * \<beta> + \<alpha> * \<alpha>)"
  defines "\<gamma> \<equiv> \<alpha> / (\<beta>2 * \<beta>)"
  defines "\<delta> \<equiv> \<beta> / \<beta>2"
  shows "(\<delta> * li + \<gamma> * ri) * (\<delta> * lk + \<gamma> * rk) + (ri - \<alpha> * li) * (rk - \<alpha> * lk) / (\<beta>2 * \<beta>2)
         = li * lk + ri * rk / (\<beta> * \<beta>)"
proof -
  define P where "P = \<beta> * \<beta> + \<alpha> * \<alpha>"
  have pos: "0 < P"
    using b by (simp add: P_def add_pos_nonneg)
  then have b2: "0 < \<beta>2" by (simp add: \<beta>2_def P_def)
  have sq: "\<beta>2 * \<beta>2 = P"
    using pos by (simp add: \<beta>2_def P_def)
  have lin: "\<delta> * l + \<gamma> * r = (\<beta> * \<beta> * l + \<alpha> * r) / (\<beta>2 * \<beta>)" for l r
    using b b2 by (simp add: \<gamma>_def \<delta>_def field_simps)
  have "(\<delta> * li + \<gamma> * ri) * (\<delta> * lk + \<gamma> * rk)
        = (\<beta> * \<beta> * li + \<alpha> * ri) * (\<beta> * \<beta> * lk + \<alpha> * rk) / ((\<beta>2 * \<beta>2) * (\<beta> * \<beta>))"
    by (simp add: lin)
  then have "(\<delta> * li + \<gamma> * ri) * (\<delta> * lk + \<gamma> * rk) + (ri - \<alpha> * li) * (rk - \<alpha> * lk) / (\<beta>2 * \<beta>2)
        = (\<beta> * \<beta> * li + \<alpha> * ri) * (\<beta> * \<beta> * lk + \<alpha> * rk) / (P * (\<beta> * \<beta>))
          + (ri - \<alpha> * li) * (rk - \<alpha> * lk) / P"
    by (simp only: sq)
  also have "\<dots> = li * lk + ri * rk / (\<beta> * \<beta>)"
  proof (rule quot_plus [OF pos])
    show "0 < \<beta> * \<beta>" using b by simp
    show "(\<beta> * \<beta> * li + \<alpha> * ri) * (\<beta> * \<beta> * lk + \<alpha> * rk) + \<beta> * \<beta> * ((ri - \<alpha> * li) * (rk - \<alpha> * lk))
          = (\<beta> * \<beta> * (li * lk) + ri * rk) * P"
      unfolding P_def by (rule ring_plus)
  qed
  finally show ?thesis .
qed

lemma nth_map2:
  "i < length xs \<Longrightarrow> i < length ys \<Longrightarrow> map2 f xs ys ! i = f (xs ! i) (ys ! i)"
  by simp

lemma update_step_real_entries:
  fixes L :: "real list list" and w :: "real list" and \<beta> :: real
  assumes sh: "is_shape N N L" "length w = N" and j: "j < N"
  defines "\<alpha> \<equiv> w ! j / L ! j ! j"
  defines "\<beta>2 \<equiv> sqrt (\<beta> * \<beta> + \<alpha> * \<alpha>)"
  defines "\<gamma> \<equiv> \<alpha> / (\<beta>2 * \<beta>)"
  defines "\<delta> \<equiv> \<beta> / \<beta>2"
  assumes step: "update_step_real j (L, w, \<beta>) = (L', w', \<beta>')"
  shows "is_shape N N L'" and "length w' = N" and "\<beta>' = \<beta>2"
    and "\<And>i c. i < N \<Longrightarrow> c < N \<Longrightarrow>
           L' ! i ! c = (if c = j \<and> j \<le> i then \<delta> * L ! i ! j + \<gamma> * w ! i else L ! i ! c)"
    and "\<And>i. i < N \<Longrightarrow>
           w' ! i = (if i = j then \<alpha> else if j < i then w ! i - \<alpha> * L ! i ! j else w ! i)"
proof -
  define L1 where "L1 = set2 L j j (\<delta> * (L ! j ! j) + \<gamma> * (w ! j))"
  define w1 where "w1 = w[j := \<alpha>]"
  define vs where "vs = map2 (+) (map ((*) \<delta>) (col_below L1 j)) (map ((*) \<gamma>) (drop (Suc j) w1))"
  define ws where "ws = map2 (-) (drop (Suc j) w1) (map ((*) \<alpha>) (col_below L1 j))"
  have "update_step_real j (L, w, \<beta>) = (set_col_below L1 j vs, set_below w1 j ws, \<beta>2)"
    by (simp only: update_step_real_def Let_def prod.case
        vs_def ws_def w1_def L1_def \<delta>_def \<gamma>_def \<beta>2_def \<alpha>_def)
  with step have L': "L' = set_col_below L1 j vs" and w': "w' = set_below w1 j ws"
    and b': "\<beta>' = \<beta>2"
    by simp_all
  have sh1: "is_shape N N L1"
    unfolding L1_def using sh(1) by (rule shape_set2)
  have len1: "length L1 = N" using sh1 by (rule is_shape_length)
  have lw1: "length w1 = N" using sh(2) by (simp add: w1_def)
  have lvs: "length vs = N - Suc j"
    by (simp add: vs_def length_col_below len1 lw1)
  have lws: "length ws = N - Suc j"
    by (simp add: ws_def length_col_below len1 lw1)
  show "is_shape N N L'"
    unfolding L' using sh1 lvs by (rule shape_set_col_below)
  show "length w' = N"
    unfolding w' using lws lw1 j by (simp add: length_set_below)
  show "\<beta>' = \<beta>2" by (rule b')
  have L1e: "L1 ! i ! c = (if i = j \<and> c = j then \<delta> * (L ! j ! j) + \<gamma> * (w ! j) else L ! i ! c)" for i c
    unfolding L1_def using nth_set2 [OF sh(1) j j] by simp
  have cb: "col_below L1 j ! (i - Suc j) = L ! i ! j" if "j < i" "i < N" for i
    using that nth_col_below [of j "i - Suc j" L1] by (simp add: len1 L1e)
  have w1e: "drop (Suc j) w1 ! (i - Suc j) = w ! i" if "j < i" "i < N" for i
    using that by (simp add: w1_def sh(2))
  show "L' ! i ! c = (if c = j \<and> j \<le> i then \<delta> * L ! i ! j + \<gamma> * w ! i else L ! i ! c)"
    if "i < N" "c < N" for i c
  proof (cases "j < i \<and> c = j")
    case True
    then have "L' ! i ! c = vs ! (i - Suc j)"
      unfolding L' using nth_set_col_below [OF sh1 lvs that(1) j] by simp
    also have "\<dots> = \<delta> * L ! i ! j + \<gamma> * w ! i"
    proof -
      have idx: "i - Suc j < N - Suc j" using True that by arith
      show ?thesis
        unfolding vs_def using idx cb [of i] w1e [of i] True that
        by (subst nth_map2) (simp_all add: length_col_below len1 lw1 del: nth_drop)
    qed
    finally show ?thesis using True by simp
  next
    case False
    then have "L' ! i ! c = L1 ! i ! c"
      unfolding L' using nth_set_col_below [OF sh1 lvs that(1) j] by auto
    then show ?thesis using False by (auto simp: L1e)
  qed
  show "w' ! i = (if i = j then \<alpha> else if j < i then w ! i - \<alpha> * L ! i ! j else w ! i)"
    if "i < N" for i
  proof (cases "j < i")
    case True
    then have "w' ! i = ws ! (i - Suc j)"
      unfolding w' using j lw1 by (simp add: nth_set_below)
    also have "\<dots> = w ! i - \<alpha> * L ! i ! j"
    proof -
      have idx: "i - Suc j < N - Suc j" using True that by arith
      show ?thesis
        unfolding ws_def using idx cb [of i] w1e [of i] True that
        by (subst nth_map2) (simp_all add: length_col_below len1 lw1 del: nth_drop)
    qed
    finally show ?thesis using True by simp
  next
    case False
    then have "w' ! i = w1 ! i"
      unfolding w' using j lw1 by (simp add: nth_set_below)
    then show ?thesis using False that sh(2) by (auto simp: w1_def nth_list_update)
  qed
qed

lemma update_step_real_inv:
  assumes inv: "ud_inv 1 N G j (L, w, \<beta>)" and j: "j < N"
  shows "ud_inv 1 N G (Suc j) (update_step_real j (L, w, \<beta>))"
proof -
  obtain L' w' \<beta>' where step: "update_step_real j (L, w, \<beta>) = (L', w', \<beta>')"
    by (cases "update_step_real j (L, w, \<beta>)") auto
  define \<alpha> where "\<alpha> = w ! j / L ! j ! j"
  define \<beta>2 where "\<beta>2 = sqrt (\<beta> * \<beta> + \<alpha> * \<alpha>)"
  define \<gamma> where "\<gamma> = \<alpha> / (\<beta>2 * \<beta>)"
  define \<delta> where "\<delta> = \<beta> / \<beta>2"
  from inv have sh: "is_shape N N L" "length w = N" and b: "0 < \<beta>"
    and diag: "\<And>i. i < N \<Longrightarrow> 0 < L ! i ! i"
    and tri: "\<And>i c. i < N \<Longrightarrow> c < N \<Longrightarrow> i < c \<Longrightarrow> L ! i ! c = 0"
    and gr: "\<And>i k. i < N \<Longrightarrow> k < N \<Longrightarrow>
              (\<Sum>c<N. L ! i ! c * L ! k ! c)
              + 1 * ((if i < j then 0 else w ! i) * (if k < j then 0 else w ! k)) / (\<beta> * \<beta>) = G i k"
    by (simp_all add: ud_inv_def)
  note ent = update_step_real_entries [OF sh j step, folded \<alpha>_def, folded \<beta>2_def, folded \<gamma>_def \<delta>_def]
  have pos: "0 < \<beta> * \<beta> + \<alpha> * \<alpha>"
    using b by (simp add: add_pos_nonneg)
  then have b2: "0 < \<beta>2" by (simp add: \<beta>2_def)
  have ljj: "0 < L ! j ! j" using diag j by simp
  define l where "l i = (if j \<le> i then L ! i ! j else 0)" for i
  define r where "r i = (if i < j then 0 else w ! i)" for i
  have lL: "L ! i ! j = l i" if "i < N" for i
    using that tri [of i j] j by (auto simp: l_def)
  have L'j: "L' ! i ! j = \<delta> * l i + \<gamma> * r i" if "i < N" for i
    using that ent(4) [of i j] j lL [of i] by (auto simp: l_def r_def)
  have r': "(if i < Suc j then 0 else w' ! i) = r i - \<alpha> * l i" if "i < N" for i
  proof -
    have z: "w ! j - \<alpha> * L ! j ! j = 0" using ljj by (simp add: \<alpha>_def)
    consider "i < j" | "i = j" | "j < i" by arith
    then show ?thesis
    proof cases
      case 1
      then show ?thesis by (simp add: l_def r_def)
    next
      case 2
      then show ?thesis using z by (simp add: l_def r_def)
    next
      case 3
      then show ?thesis using that ent(5) [of i] by (simp add: l_def r_def)
    qed
  qed
  have diag': "0 < L' ! i ! i" if "i < N" for i
  proof (cases "i = j")
    case True
    have "\<gamma> * w ! j = (w ! j * w ! j) / (L ! j ! j * (\<beta>2 * \<beta>))"
      by (simp add: \<gamma>_def \<alpha>_def)
    moreover have "0 \<le> (w ! j * w ! j) / (L ! j ! j * (\<beta>2 * \<beta>))"
      using ljj b b2 by simp
    moreover have "0 < \<delta> * L ! j ! j"
      using ljj b b2 by (simp add: \<delta>_def)
    ultimately show ?thesis
      using True that ent(4) [of j j] by simp
  next
    case False
    then show ?thesis using that ent(4) [of i i] diag [of i] by simp
  qed
  have tri': "L' ! i ! c = 0" if "i < N" "c < N" "i < c" for i c
    using that ent(4) [of i c] tri [of i c] by auto
  have gram': "(\<Sum>c<N. L' ! i ! c * L' ! k ! c)
               + 1 * ((if i < Suc j then 0 else w' ! i) * (if k < Suc j then 0 else w' ! k)) / (\<beta>' * \<beta>')
               = G i k" if ik: "i < N" "k < N" for i k
  proof -
    have "(\<Sum>c<N. L' ! i ! c * L' ! k ! c)
          = (\<Sum>c<N. if c = j then L' ! i ! j * L' ! k ! j else L ! i ! c * L ! k ! c)"
      by (rule sum.cong) (use ik ent(4) in auto)
    also have "\<dots> = (\<Sum>c<N. L ! i ! c * L ! k ! c) - L ! i ! j * L ! k ! j + L' ! i ! j * L' ! k ! j"
      using j by (rule sum_replace_one)
    finally have "(\<Sum>c<N. L' ! i ! c * L' ! k ! c)
               + 1 * ((if i < Suc j then 0 else w' ! i) * (if k < Suc j then 0 else w' ! k)) / (\<beta>' * \<beta>')
          = (\<Sum>c<N. L ! i ! c * L ! k ! c) - l i * l k
            + ((\<delta> * l i + \<gamma> * r i) * (\<delta> * l k + \<gamma> * r k)
               + (r i - \<alpha> * l i) * (r k - \<alpha> * l k) / (\<beta>2 * \<beta>2))"
      using ik by (simp add: r' L'j lL ent(3))
    also have "(\<delta> * l i + \<gamma> * r i) * (\<delta> * l k + \<gamma> * r k)
               + (r i - \<alpha> * l i) * (r k - \<alpha> * l k) / (\<beta>2 * \<beta>2)
               = l i * l k + r i * r k / (\<beta> * \<beta>)"
      unfolding \<delta>_def \<gamma>_def \<beta>2_def using b by (rule rotation_identity_plus)
    finally show ?thesis
      using gr [OF ik] by (simp add: r_def)
  qed
  show ?thesis
    unfolding step ud_inv_def
    using ent(1,2) b2 diag' tri' gram' by (simp add: ent(3))
qed

lemma set_col_below_last:
  "length M = Suc k \<Longrightarrow> set_col_below M k vs = M"
  by (simp add: set_col_below_def)

lemma update_tail_last:
  assumes "length L = N" "length w = N" "Suc j = N"
  shows "update_tail j ((L, w, \<beta>), \<alpha>, \<gamma>, \<delta>) = (L, w, \<beta>)"
  using assms
  by (simp add: update_tail_def Let_def set_col_below_last set_below_def col_below_def
      v_sub_def v_scale_def)

lemma update_head_shape:
  assumes "update_head j (L, w, \<beta>) = ((L1, w1, \<beta>1), \<alpha>, \<gamma>, \<delta>)"
  shows "length L1 = length L" "length w1 = length w"
  using assms by (auto simp: update_head_def Let_def set2_def)

lemma update_loop_step:
  assumes "j < N" "length L = N" "length w = N"
  shows "update_loop N j (L, w, \<beta>) = update_loop N (Suc j) (update_tail j (update_head j (L, w, \<beta>)))"
proof (cases "j = N - 1")
  case True
  obtain L1 w1 \<beta>1 \<alpha> \<gamma> \<delta> where h: "update_head j (L, w, \<beta>) = ((L1, w1, \<beta>1), \<alpha>, \<gamma>, \<delta>)"
    by (metis prod_cases3)
  have "update_tail j (update_head j (L, w, \<beta>)) = (L1, w1, \<beta>1)"
    unfolding h using update_head_shape [OF h] assms True
    by (intro update_tail_last [of _ N]) auto
  moreover have "update_loop N (Suc j) (L1, w1, \<beta>1) = (L1, w1, \<beta>1)"
    using True assms(1) by (subst update_loop.simps) simp
  moreover have "update_loop N j (L, w, \<beta>) = (L1, w1, \<beta>1)"
    using True assms(1) h by (subst update_loop.simps) (simp add: Let_def)
  ultimately show ?thesis by simp
next
  case False
  then show ?thesis
    using assms(1) by (subst update_loop.simps) (simp add: Let_def)
qed

lemma update_loop_real:
  assumes "ud_inv 1 N G j (L, w, \<beta>)" and "j \<le> N"
  shows "\<exists>L' w' \<beta>'. update_loop N j (fmat L, fvec w, Fin \<beta>) = (fmat L', fvec w', Fin \<beta>')
           \<and> ud_inv 1 N G N (L', w', \<beta>')"
  using assms
proof (induction "N - j" arbitrary: j L w \<beta>)
  case 0
  then have "j = N" by simp
  then show ?case
    using "0.prems"(1) by (subst update_loop.simps) auto
next
  case (Suc d)
  then have j: "j < N" by simp
  from Suc.prems(1) have sh: "is_shape N N L" "length w = N" and b: "0 < \<beta>"
    and nz: "L ! j ! j \<noteq> 0"
    using j by (auto simp: ud_inv_def)
  obtain L1 w1 \<beta>1 where st: "update_step_real j (L, w, \<beta>) = (L1, w1, \<beta>1)"
    by (metis prod_cases3)
  have inv1: "ud_inv 1 N G (Suc j) (L1, w1, \<beta>1)"
    using update_step_real_inv [OF Suc.prems(1) j] by (simp add: st)
  have "update_loop N j (fmat L, fvec w, Fin \<beta>)
        = update_loop N (Suc j) (fmat L1, fvec w1, Fin \<beta>1)"
    using update_loop_step [of j N "fmat L" "fvec w" "Fin \<beta>"] j sh
      update_step_sim [OF sh j nz b]
    by (simp add: st is_shape_length)
  moreover have "\<exists>L' w' \<beta>'. update_loop N (Suc j) (fmat L1, fvec w1, Fin \<beta>1)
            = (fmat L', fvec w', Fin \<beta>') \<and> ud_inv 1 N G N (L', w', \<beta>')"
    using Suc.hyps(2) j by (intro Suc.hyps(1) [OF _ inv1]) auto
  ultimately show ?case by simp
qed

lemma downdate_step_sim:
  assumes sh: "is_shape N N L" "length w = N" and j: "j < N"
    and nz: "L ! j ! j \<noteq> 0" and b: "0 < \<beta>"
  shows "downdate_step j (fmat L, fvec w, Fin \<beta>)
         = (case downdate_step_real j (L, w, \<beta>) of
              None \<Rightarrow> Inl NotPositiveDefinite
            | Some (L', w', \<beta>') \<Rightarrow> Inr (fmat L', fvec w', Fin \<beta>'))"
proof -
  define \<alpha> where "\<alpha> = w ! j / L ! j ! j"
  have wj: "fvec w ! j = Fin (w ! j)" and ljj: "fmat L ! j ! j = Fin (L ! j ! j)"
    using sh j by (simp_all add: nth_fvec nth_fmat [OF sh(1)])
  have a: "f_div (Fin (w ! j)) (Fin (L ! j ! j)) = Fin \<alpha>"
    using nz by (simp add: \<alpha>_def)
  show ?thesis
  proof (cases "\<beta> * \<beta> \<le> \<alpha> * \<alpha>")
    case True
    have "downdate_step_real j (L, w, \<beta>) = None"
      using True by (simp add: downdate_step_real_def Let_def \<alpha>_def)
    moreover have "downdate_head j (fmat L, fvec w, Fin \<beta>) = Inl NotPositiveDefinite"
      using True by (simp add: downdate_head_def Let_def wj ljj a del: f_div.simps)
    ultimately show ?thesis by (simp add: downdate_step_def)
  next
    case False
    define \<beta>2 where "\<beta>2 = sqrt (\<beta> * \<beta> - \<alpha> * \<alpha>)"
    define \<gamma> where "\<gamma> = \<alpha> / (\<beta>2 * \<beta>)"
    define \<delta> where "\<delta> = \<beta>2 / \<beta>"
    define L1 where "L1 = set2 L j j (\<delta> * (L ! j ! j))"
    define w1 where "w1 = w[j := \<alpha>]"
    define w' where "w' = set_below w1 j (map2 (-) (drop (Suc j) w1) (map ((*) \<alpha>) (col_below L1 j)))"
    have pos: "0 < \<beta> * \<beta> - \<alpha> * \<alpha>" using False by simp
    then have b2: "0 < \<beta>2" by (simp add: \<beta>2_def)
    have r: "f_sqrt (f_sub (f_mul (Fin \<beta>) (Fin \<beta>)) (f_mul (Fin \<alpha>) (Fin \<alpha>))) = Fin \<beta>2"
      using pos by (simp add: \<beta>2_def f_sub_def)
    have g: "f_div (Fin \<alpha>) (f_mul (Fin \<beta>2) (Fin \<beta>)) = Fin \<gamma>"
      using b b2 by (simp add: \<gamma>_def)
    have d: "f_div (Fin \<beta>2) (Fin \<beta>) = Fin \<delta>"
      using b by (simp add: \<delta>_def)
    have ge: "\<not> f_ge (f_mul (Fin \<alpha>) (Fin \<alpha>)) (f_mul (Fin \<beta>) (Fin \<beta>))"
      using False by simp
    have head: "downdate_head j (fmat L, fvec w, Fin \<beta>)
        = Inr ((fmat L1, fvec w1, Fin \<beta>2), Fin \<alpha>, Fin \<gamma>, Fin \<delta>)"
      using ge
      by (simp add: downdate_head_def Let_def wj ljj a r g d L1_def w1_def update_fvec
          del: f_div.simps f_sqrt.simps f_mul.simps f_add.simps f_ge.simps)
        (simp add: set2_fmat)
    have sh1: "is_shape N N L1"
      unfolding L1_def using sh(1) by (rule shape_set2)
    have twin: "downdate_step_real j (L, w, \<beta>)
        = Some (set_col_below L1 j (map2 (-) (map ((*) \<delta>) (col_below L1 j))
                                       (map ((*) \<gamma>) (drop (Suc j) w'))), w', \<beta>2)"
      using False
      by (simp only: downdate_step_real_def Let_def prod.case if_False
          w'_def w1_def L1_def \<delta>_def \<gamma>_def \<beta>2_def \<alpha>_def)
    show ?thesis
      unfolding downdate_step_def head twin
      by (simp add: downdate_tail_def Let_def fin_hom col_below_fmat [OF sh1 j] w'_def)
  qed
qed

lemma ring_minus:
  fixes \<alpha> \<beta> :: real
  shows "(\<beta> * \<beta> * li - \<alpha> * ri) * (\<beta> * \<beta> * lk - \<alpha> * rk) - (\<beta> * \<beta>) * ((ri - \<alpha> * li) * (rk - \<alpha> * lk))
         = (\<beta> * \<beta> * (li * lk) - ri * rk) * (\<beta> * \<beta> - \<alpha> * \<alpha>)"
  by (simp add: algebra_simps)

lemma quot_minus:
  fixes P b2 :: real
  assumes "0 < P" "0 < b2"
    and "u - b2 * v = (b2 * x - y) * P"
  shows "u / (P * b2) - v / P = x - y / b2"
proof -
  have "u / (P * b2) - v / P = (u - b2 * v) / (P * b2)"
    using assms(1,2) by (simp add: field_simps)
  also have "\<dots> = (b2 * x - y) * P / (P * b2)"
    by (simp only: assms(3))
  also have "\<dots> = x - y / b2"
    using assms(1,2) by (simp add: field_simps)
  finally show ?thesis .
qed

lemma rotation_identity_minus:
  fixes \<alpha> \<beta> :: real
  assumes b: "0 < \<beta>" and lt: "\<alpha> * \<alpha> < \<beta> * \<beta>"
  defines "\<beta>2 \<equiv> sqrt (\<beta> * \<beta> - \<alpha> * \<alpha>)"
  defines "\<gamma> \<equiv> \<alpha> / (\<beta>2 * \<beta>)"
  defines "\<delta> \<equiv> \<beta>2 / \<beta>"
  shows "(\<delta> * li - \<gamma> * (ri - \<alpha> * li)) * (\<delta> * lk - \<gamma> * (rk - \<alpha> * lk))
           - (ri - \<alpha> * li) * (rk - \<alpha> * lk) / (\<beta>2 * \<beta>2)
         = li * lk - ri * rk / (\<beta> * \<beta>)"
proof -
  define P where "P = \<beta> * \<beta> - \<alpha> * \<alpha>"
  have pos: "0 < P"
    using lt by (simp add: P_def)
  then have b2: "0 < \<beta>2" by (simp add: \<beta>2_def P_def)
  have sq: "\<beta>2 * \<beta>2 = P"
    using pos by (simp add: \<beta>2_def P_def)
  have lin: "\<delta> * l - \<gamma> * (r - \<alpha> * l) = (\<beta> * \<beta> * l - \<alpha> * r) / (\<beta>2 * \<beta>)" for l r
  proof -
    have "\<delta> * l - \<gamma> * (r - \<alpha> * l) = ((\<beta>2 * \<beta>2 + \<alpha> * \<alpha>) * l - \<alpha> * r) / (\<beta>2 * \<beta>)"
      using b b2 by (simp add: \<gamma>_def \<delta>_def field_simps)
    also have "\<beta>2 * \<beta>2 + \<alpha> * \<alpha> = \<beta> * \<beta>"
      by (simp add: sq P_def)
    finally show ?thesis .
  qed
  have "(\<delta> * li - \<gamma> * (ri - \<alpha> * li)) * (\<delta> * lk - \<gamma> * (rk - \<alpha> * lk))
        = (\<beta> * \<beta> * li - \<alpha> * ri) * (\<beta> * \<beta> * lk - \<alpha> * rk) / ((\<beta>2 * \<beta>2) * (\<beta> * \<beta>))"
    by (simp add: lin)
  then have "(\<delta> * li - \<gamma> * (ri - \<alpha> * li)) * (\<delta> * lk - \<gamma> * (rk - \<alpha> * lk))
           - (ri - \<alpha> * li) * (rk - \<alpha> * lk) / (\<beta>2 * \<beta>2)
        = (\<beta> * \<beta> * li - \<alpha> * ri) * (\<beta> * \<beta> * lk - \<alpha> * rk) / (P * (\<beta> * \<beta>))
          - (ri - \<alpha> * li) * (rk - \<alpha> * lk) / P"
    by (simp only: sq)
  also have "\<dots> = li * lk - ri * rk / (\<beta> * \<beta>)"
  proof (rule quot_minus [OF pos])
    show "0 < \<beta> * \<beta>" using b by simp
    show "(\<beta> * \<beta> * li - \<alpha> * ri) * (\<beta> * \<beta> * lk - \<alpha> * rk) - \<beta> * \<beta> * ((ri - \<alpha> * li) * (rk - \<alpha> * lk))
          = (\<beta> * \<beta> * (li * lk) - ri * rk) * P"
      unfolding P_def by (rule ring_minus)
  qed
  finally show ?thesis .
qed

lemma downdate_step_real_entries:
  fixes L :: "real list list" and w :: "real list" and \<beta> :: real
  assumes sh: "is_shape N N L" "length w = N" and j: "j < N"
  defines "\<alpha> \<equiv> w ! j / L ! j ! j"
  defines "\<beta>2 \<equiv> sqrt (\<beta> * \<beta> - \<alpha> * \<alpha>)"
  defines "\<gamma> \<equiv> \<alpha> / (\<beta>2 * \<beta>)"
  defines "\<delta> \<equiv> \<beta>2 / \<beta>"
  assumes step: "downdate_step_real j (L, w, \<beta>) = Some (L', w', \<beta>')"
  shows "is_shape N N L'" and "length w' = N" and "\<beta>' = \<beta>2" and "\<alpha> * \<alpha> < \<beta> * \<beta>"
    and "\<And>i c. i < N \<Longrightarrow> c < N \<Longrightarrow>
           L' ! i ! c = (if c = j \<and> j \<le> i
                         then (if i = j then \<delta> * L ! j ! j
                               else \<delta> * L ! i ! j - \<gamma> * (w ! i - \<alpha> * L ! i ! j))
                         else L ! i ! c)"
    and "\<And>i. i < N \<Longrightarrow>
           w' ! i = (if i = j then \<alpha> else if j < i then w ! i - \<alpha> * L ! i ! j else w ! i)"
proof -
  define L1 where "L1 = set2 L j j (\<delta> * (L ! j ! j))"
  define w1 where "w1 = w[j := \<alpha>]"
  define ws where "ws = map2 (-) (drop (Suc j) w1) (map ((*) \<alpha>) (col_below L1 j))"
  define w2 where "w2 = set_below w1 j ws"
  define vs where "vs = map2 (-) (map ((*) \<delta>) (col_below L1 j)) (map ((*) \<gamma>) (drop (Suc j) w2))"
  have guard: "\<not> \<beta> * \<beta> \<le> \<alpha> * \<alpha>"
    using step by (auto simp: downdate_step_real_def Let_def \<alpha>_def split: if_splits)
  then show "\<alpha> * \<alpha> < \<beta> * \<beta>" by simp
  have "downdate_step_real j (L, w, \<beta>) = Some (set_col_below L1 j vs, w2, \<beta>2)"
    using guard
    by (simp only: downdate_step_real_def Let_def prod.case if_False
        vs_def w2_def ws_def w1_def L1_def \<delta>_def \<gamma>_def \<beta>2_def \<alpha>_def)
  with step have L': "L' = set_col_below L1 j vs" and w': "w' = w2"
    and b': "\<beta>' = \<beta>2"
    by simp_all
  have sh1: "is_shape N N L1"
    unfolding L1_def using sh(1) by (rule shape_set2)
  have len1: "length L1 = N" using sh1 by (rule is_shape_length)
  have lw1: "length w1 = N" using sh(2) by (simp add: w1_def)
  have lws: "length ws = N - Suc j"
    by (simp add: ws_def length_col_below len1 lw1)
  have lw2: "length w2 = N"
    unfolding w2_def using lws lw1 j by (simp add: length_set_below)
  have lvs: "length vs = N - Suc j"
    by (simp add: vs_def length_col_below len1 lw2)
  show "is_shape N N L'"
    unfolding L' using sh1 lvs by (rule shape_set_col_below)
  show "length w' = N"
    unfolding w' by (rule lw2)
  show "\<beta>' = \<beta>2" by (rule b')
  have L1e: "L1 ! i ! c = (if i = j \<and> c = j then \<delta> * (L ! j ! j) else L ! i ! c)" for i c
    unfolding L1_def using nth_set2 [OF sh(1) j j] by simp
  have cb: "col_below L1 j ! (i - Suc j) = L ! i ! j" if "j < i" "i < N" for i
    using that nth_col_below [of j "i - Suc j" L1] by (simp add: len1 L1e)
  have w1e: "drop (Suc j) w1 ! (i - Suc j) = w ! i" if "j < i" "i < N" for i
    using that by (simp add: w1_def sh(2))
  have w2e: "w2 ! i = (if i = j then \<alpha> else if j < i then w ! i - \<alpha> * L ! i ! j else w ! i)"
    if "i < N" for i
  proof (cases "j < i")
    case True
    then have "w2 ! i = ws ! (i - Suc j)"
      unfolding w2_def using j lw1 by (simp add: nth_set_below)
    also have "\<dots> = w ! i - \<alpha> * L ! i ! j"
    proof -
      have idx: "i - Suc j < N - Suc j" using True that by arith
      show ?thesis
        unfolding ws_def using idx cb [of i] w1e [of i] True that
        by (subst nth_map2) (simp_all add: length_col_below len1 lw1 del: nth_drop)
    qed
    finally show ?thesis using True by simp
  next
    case False
    then have "w2 ! i = w1 ! i"
      unfolding w2_def using j lw1 by (simp add: nth_set_below)
    then show ?thesis using False that sh(2) by (auto simp: w1_def nth_list_update)
  qed
  show "w' ! i = (if i = j then \<alpha> else if j < i then w ! i - \<alpha> * L ! i ! j else w ! i)"
    if "i < N" for i
    unfolding w' using that by (rule w2e)
  have w2d: "drop (Suc j) w2 ! (i - Suc j) = w ! i - \<alpha> * L ! i ! j" if "j < i" "i < N" for i
    using that w2e [of i] by (simp add: lw2)
  show "L' ! i ! c = (if c = j \<and> j \<le> i
                         then (if i = j then \<delta> * L ! j ! j
                               else \<delta> * L ! i ! j - \<gamma> * (w ! i - \<alpha> * L ! i ! j))
                         else L ! i ! c)"
    if "i < N" "c < N" for i c
  proof (cases "j < i \<and> c = j")
    case True
    then have "L' ! i ! c = vs ! (i - Suc j)"
      unfolding L' using nth_set_col_below [OF sh1 lvs that(1) j] by simp
    also have "\<dots> = \<delta> * L ! i ! j - \<gamma> * (w ! i - \<alpha> * L ! i ! j)"
    proof -
      have idx: "i - Suc j < N - Suc j" using True that by arith
      show ?thesis
        unfolding vs_def using idx cb [of i] w2d [of i] True that
        by (subst nth_map2) (simp_all add: length_col_below len1 lw2 del: nth_drop)
    qed
    finally show ?thesis using True by simp
  next
    case False
    then have "L' ! i ! c = L1 ! i ! c"
      unfolding L' using nth_set_col_below [OF sh1 lvs that(1) j] by auto
    then show ?thesis using False by (auto simp: L1e)
  qed
qed

lemma downdate_step_real_inv:
  assumes inv: "ud_inv (- 1) N G j (L, w, \<beta>)" and j: "j < N"
    and step: "downdate_step_real j (L, w, \<beta>) = Some (L', w', \<beta>')"
  shows "ud_inv (- 1) N G (Suc j) (L', w', \<beta>')"
proof -
  define \<alpha> where "\<alpha> = w ! j / L ! j ! j"
  define \<beta>2 where "\<beta>2 = sqrt (\<beta> * \<beta> - \<alpha> * \<alpha>)"
  define \<gamma> where "\<gamma> = \<alpha> / (\<beta>2 * \<beta>)"
  define \<delta> where "\<delta> = \<beta>2 / \<beta>"
  from inv have sh: "is_shape N N L" "length w = N" and b: "0 < \<beta>"
    and diag: "\<And>i. i < N \<Longrightarrow> 0 < L ! i ! i"
    and tri: "\<And>i c. i < N \<Longrightarrow> c < N \<Longrightarrow> i < c \<Longrightarrow> L ! i ! c = 0"
    and gr: "\<And>i k. i < N \<Longrightarrow> k < N \<Longrightarrow>
              (\<Sum>c<N. L ! i ! c * L ! k ! c)
              + (- 1) * ((if i < j then 0 else w ! i) * (if k < j then 0 else w ! k)) / (\<beta> * \<beta>) = G i k"
    by (simp_all add: ud_inv_def)
  note ent = downdate_step_real_entries [OF sh j step, folded \<alpha>_def, folded \<beta>2_def, folded \<gamma>_def \<delta>_def]
  have lt: "\<alpha> * \<alpha> < \<beta> * \<beta>" by (rule ent(4))
  then have b2: "0 < \<beta>2" by (simp add: \<beta>2_def)
  have ljj: "0 < L ! j ! j" using diag j by simp
  define l where "l i = (if j \<le> i then L ! i ! j else 0)" for i
  define r where "r i = (if i < j then 0 else w ! i)" for i
  have lL: "L ! i ! j = l i" if "i < N" for i
    using that tri [of i j] j by (auto simp: l_def)
  have z: "w ! j - \<alpha> * L ! j ! j = 0" using ljj by (simp add: \<alpha>_def)
  have L'j: "L' ! i ! j = \<delta> * l i - \<gamma> * (r i - \<alpha> * l i)" if "i < N" for i
  proof -
    consider "i < j" | "i = j" | "j < i" by arith
    then show ?thesis
    proof cases
      case 1
      then show ?thesis using that ent(5) [of i j] j lL [of i] by (simp add: l_def r_def)
    next
      case 2
      then show ?thesis using that ent(5) [of j j] z by (simp add: l_def r_def)
    next
      case 3
      then show ?thesis using that ent(5) [of i j] j by (simp add: l_def r_def)
    qed
  qed
  have r': "(if i < Suc j then 0 else w' ! i) = r i - \<alpha> * l i" if "i < N" for i
  proof -
    consider "i < j" | "i = j" | "j < i" by arith
    then show ?thesis
    proof cases
      case 1
      then show ?thesis by (simp add: l_def r_def)
    next
      case 2
      then show ?thesis using z by (simp add: l_def r_def)
    next
      case 3
      then show ?thesis using that ent(6) [of i] by (simp add: l_def r_def)
    qed
  qed
  have diag': "0 < L' ! i ! i" if "i < N" for i
  proof (cases "i = j")
    case True
    have "0 < \<delta> * L ! j ! j"
      using ljj b b2 by (simp add: \<delta>_def)
    then show ?thesis
      using True that ent(5) [of j j] by simp
  next
    case False
    then show ?thesis using that ent(5) [of i i] diag [of i] by simp
  qed
  have tri': "L' ! i ! c = 0" if "i < N" "c < N" "i < c" for i c
    using that ent(5) [of i c] tri [of i c] by auto
  have gram': "(\<Sum>c<N. L' ! i ! c * L' ! k ! c)
               + (- 1) * ((if i < Suc j then 0 else w' ! i) * (if k < Suc j then 0 else w' ! k)) / (\<beta>' * \<beta>')
               = G i k" if ik: "i < N" "k < N" for i k
  proof -
    have "(\<Sum>c<N. L' ! i ! c * L' ! k ! c)
          = (\<Sum>c<N. if c = j then L' ! i ! j * L' ! k ! j else L ! i ! c * L ! k ! c)"
      by (rule sum.cong) (use ik ent(5) in auto)
    also have "\<dots> = (\<Sum>c<N. L ! i ! c * L ! k ! c) - L ! i ! j * L ! k ! j + L' ! i ! j * L' ! k ! j"
      using j by (rule sum_replace_one)
    finally have "(\<Sum>c<N. L' ! i ! c * L' ! k ! c)
               + (- 1) * ((if i < Suc j then 0 else w' ! i) * (if k < Suc j then 0 else w' ! k)) / (\<beta>' * \<beta>')
          = (\<Sum>c<N. L ! i ! c * L ! k ! c) - l i * l k
            + ((\<delta> * l i - \<gamma> * (r i - \<alpha> * l i)) * (\<delta> * l k - \<gamma> * (r k - \<alpha> * l k))
               - (r i - \<alpha> * l i) * (r k - \<alpha> * l k) / (\<beta>2 * \<beta>2))"
      using ik by (simp add: r' L'j lL ent(3))
    also have "(\<delta> * l i - \<gamma> * (r i - \<alpha> * l i)) * (\<delta> * l k - \<gamma> * (r k - \<alpha> * l k))
               - (r i - \<alpha> * l i) * (r k - \<alpha> * l k) / (\<beta>2 * \<beta>2)
               = l i * l k - r i * r k / (\<beta> * \<beta>)"
      unfolding \<delta>_def \<gamma>_def \<beta>2_def using b lt by (rule rotation_identity_minus)
    finally show ?thesis
      using gr [OF ik] by (simp add: r_def)
  qed
  show ?thesis
    unfolding ud_inv_def
    using ent(1,2) b2 diag' tri' gram' by (simp add: ent(3))
qed

lemma for_loop_append:
  "for_loop (xs @ ys) body st =
     (case for_loop xs body st of Inl e \<Rightarrow> Inl e | Inr st' \<Rightarrow> for_loop ys body st')"
  by (induction xs arbitrary: st) (auto split: sum.splits)

lemma for_loop_Inl:
  assumes "for_loop [0..<N] body st = Inl e"
  shows "\<exists>j<N. \<exists>st'. for_loop [0..<j] body st = Inr st' \<and> body j st' = Inl e"
  using assms
proof (induction N)
  case 0
  then show ?case by simp
next
  case (Suc N)
  show ?case
  proof (cases "for_loop [0..<N] body st")
    case (Inl e')
    with Suc.prems have "e' = e" by (simp add: for_loop_append)
    with Inl Suc.IH obtain j st' where "j < N" "for_loop [0..<j] body st = Inr st'" "body j st' = Inl e"
      by blast
    then show ?thesis using less_Suc_eq by blast
  next
    case (Inr st')
    with Suc.prems have "body N st' = Inl e"
      by (simp add: for_loop_append split: sum.splits)
    with Inr show ?thesis by blast
  qed
qed

lemma downdate_tail_last:
  assumes "length L = N" "length w = N" "Suc j = N"
  shows "downdate_tail j ((L, w, \<beta>), \<alpha>, \<gamma>, \<delta>) = (L, w, \<beta>)"
  using assms
  by (simp add: downdate_tail_def Let_def set_col_below_last set_below_def col_below_def
      v_sub_def v_scale_def)

lemma downdate_head_length:
  assumes "downdate_head j (L, w, \<beta>) = Inr ((L1, w1, \<beta>1), \<alpha>, \<gamma>, \<delta>)"
  shows "length L1 = length L" "length w1 = length w"
  using assms by (auto simp: downdate_head_def Let_def set2_def split: if_splits)

lemma downdate_tail_length:
  assumes "downdate_tail j ((L, w, \<beta>), \<alpha>, \<gamma>, \<delta>) = (L', w', \<beta>')" "length L = N" "length w = N" "j < N"
  shows "length L' = N" "length w' = N"
  using assms
  by (auto simp: downdate_tail_def Let_def set_col_below_def set_below_def col_below_def
      v_sub_def v_scale_def)

lemma downdate_step_length:
  assumes "downdate_step j (L, w, \<beta>) = Inr (L', w', \<beta>')" "length L = N" "length w = N" "j < N"
  shows "length L' = N \<and> length w' = N"
proof -
  from assms(1) obtain L1 w1 \<beta>1 \<alpha> \<gamma> \<delta> where
    h: "downdate_head j (L, w, \<beta>) = Inr ((L1, w1, \<beta>1), \<alpha>, \<gamma>, \<delta>)"
    and t: "downdate_tail j ((L1, w1, \<beta>1), \<alpha>, \<gamma>, \<delta>) = (L', w', \<beta>')"
    by (auto simp: downdate_step_def split: sum.splits)
  show ?thesis
    using downdate_tail_length [OF t, of N] downdate_head_length [OF h] assms(2-4) by simp
qed

lemma downdate_loop_step:
  assumes "j < N" "length L = N" "length w = N"
  shows "downdate_loop N j (L, w, \<beta>)
         = (case downdate_step j (L, w, \<beta>) of
              Inl e \<Rightarrow> Inl e
            | Inr st' \<Rightarrow> downdate_loop N (Suc j) st')"
proof (cases "downdate_head j (L, w, \<beta>)")
  case (Inl e)
  then show ?thesis
    using assms(1) by (subst downdate_loop.simps) (simp add: downdate_step_def)
next
  case (Inr x)
  obtain L1 w1 \<beta>1 \<alpha> \<gamma> \<delta> where x: "x = ((L1, w1, \<beta>1), \<alpha>, \<gamma>, \<delta>)"
    by (metis prod_cases3)
  show ?thesis
  proof (cases "j = N - 1")
    case True
    have "downdate_tail j x = (L1, w1, \<beta>1)"
      unfolding x using downdate_head_length [OF Inr [unfolded x]] assms True
      by (intro downdate_tail_last [of _ N]) auto
    moreover have "downdate_loop N (Suc j) (L1, w1, \<beta>1) = Inr (L1, w1, \<beta>1)"
      using True assms(1) by (subst downdate_loop.simps) simp
    moreover have "downdate_loop N j (L, w, \<beta>) = Inr (L1, w1, \<beta>1)"
      using True assms(1) Inr x by (subst downdate_loop.simps) simp
    ultimately show ?thesis by (simp add: downdate_step_def Inr)
  next
    case False
    then show ?thesis
      using assms(1) Inr by (subst downdate_loop.simps) (simp add: downdate_step_def)
  qed
qed

lemma downdate_prefix_length:
  assumes "for_loop [0..<j] downdate_step (L, w, \<beta>) = Inr (L', w', \<beta>')"
    "length L = N" "length w = N" "j \<le> N"
  shows "length L' = N \<and> length w' = N"
  using assms
proof (induction j arbitrary: L' w' \<beta>')
  case 0
  then show ?case by simp
next
  case (Suc j)
  from Suc.prems(1) obtain L1 w1 \<beta>1 where
    p: "for_loop [0..<j] downdate_step (L, w, \<beta>) = Inr (L1, w1, \<beta>1)"
    and s: "downdate_step j (L1, w1, \<beta>1) = Inr (L', w', \<beta>')"
    by (auto simp: for_loop_append split: sum.splits)
  have "length L1 = N \<and> length w1 = N"
    using Suc.IH [OF p] Suc.prems by simp
  then show ?case
    using downdate_step_length [OF s, of N] Suc.prems(4) by simp
qed

lemma downdate_loop_prefix:
  assumes "j \<le> N" "length L = N" "length w = N"
  shows "downdate_loop N 0 (L, w, \<beta>)
         = (case for_loop [0..<j] downdate_step (L, w, \<beta>) of
              Inl e \<Rightarrow> Inl e
            | Inr st' \<Rightarrow> downdate_loop N j st')"
  using assms(1)
proof (induction j)
  case 0
  then show ?case by simp
next
  case (Suc j)
  show ?case
  proof (cases "for_loop [0..<j] downdate_step (L, w, \<beta>)")
    case (Inl e)
    then show ?thesis using Suc by (simp add: for_loop_append)
  next
    case (Inr st')
    obtain L1 w1 \<beta>1 where st': "st' = (L1, w1, \<beta>1)" by (metis prod_cases3)
    have len: "length L1 = N \<and> length w1 = N"
      using downdate_prefix_length [OF Inr [unfolded st'] assms(2,3)] Suc.prems by simp
    have "downdate_loop N 0 (L, w, \<beta>) = downdate_loop N j (L1, w1, \<beta>1)"
      using Suc Inr st' by simp
    also have "\<dots> = (case downdate_step j (L1, w1, \<beta>1) of
                       Inl e \<Rightarrow> Inl e | Inr st'' \<Rightarrow> downdate_loop N (Suc j) st'')"
      using Suc.prems len by (intro downdate_loop_step) auto
    finally show ?thesis
      using Inr st' by (simp add: for_loop_append split: sum.splits)
  qed
qed

lemma downdate_loop_end: "downdate_loop N N st = Inr st"
  by (subst downdate_loop.simps) simp

lemma downdate_loop_real:
  assumes "ud_inv (- 1) N G j (L, w, \<beta>)" and "j \<le> N"
  shows "downdate_loop N j (fmat L, fvec w, Fin \<beta>) = Inl NotPositiveDefinite
         \<or> (\<exists>L' w' \<beta>'. downdate_loop N j (fmat L, fvec w, Fin \<beta>) = Inr (fmat L', fvec w', Fin \<beta>')
               \<and> ud_inv (- 1) N G N (L', w', \<beta>'))"
  using assms
proof (induction "N - j" arbitrary: j L w \<beta>)
  case 0
  then have "j = N" by simp
  then show ?case
    using "0.prems"(1) by (auto simp: downdate_loop_end)
next
  case (Suc d)
  then have j: "j < N" by simp
  from Suc.prems(1) have sh: "is_shape N N L" "length w = N" and b: "0 < \<beta>"
    and nz: "L ! j ! j \<noteq> 0"
    using j by (auto simp: ud_inv_def)
  have unf: "downdate_loop N j (fmat L, fvec w, Fin \<beta>)
        = (case downdate_step j (fmat L, fvec w, Fin \<beta>) of
              Inl e \<Rightarrow> Inl e
            | Inr st' \<Rightarrow> downdate_loop N (Suc j) st')"
    using j sh by (intro downdate_loop_step) (simp_all add: is_shape_length)
  show ?case
  proof (cases "downdate_step_real j (L, w, \<beta>)")
    case None
    then show ?thesis
      using downdate_step_sim [OF sh j nz b] by (simp add: unf)
  next
    case (Some st1)
    obtain L1 w1 \<beta>1 where st1: "st1 = (L1, w1, \<beta>1)" by (metis prod_cases3)
    have inv1: "ud_inv (- 1) N G (Suc j) (L1, w1, \<beta>1)"
      using downdate_step_real_inv [OF Suc.prems(1) j] Some st1 by simp
    have "downdate_loop N j (fmat L, fvec w, Fin \<beta>)
          = downdate_loop N (Suc j) (fmat L1, fvec w1, Fin \<beta>1)"
      using downdate_step_sim [OF sh j nz b] Some st1 by (simp add: unf)
    moreover have "downdate_loop N (Suc j) (fmat L1, fvec w1, Fin \<beta>1) = Inl NotPositiveDefinite
         \<or> (\<exists>L' w' \<beta>'. downdate_loop N (Suc j) (fmat L1, fvec w1, Fin \<beta>1)
                 = Inr (fmat L', fvec w', Fin \<beta>')
               \<and> ud_inv (- 1) N G N (L', w', \<beta>'))"
      using Suc.hyps(2) j by (intro Suc.hyps(1) [OF _ inv1]) auto
    ultimately show ?thesis by simp
  qed
qed

lemma ud_inv_init:
  assumes "is_shape N N L" "length w = N" "lower_tri L" "pos_diag L"
  shows "ud_inv s N (\<lambda>i k. gram L i k + s * (w ! i * w ! k)) 0 (L, w, 1)"
  using assms by (auto simp: ud_inv_def lower_tri_def pos_diag_def gram_def is_shape_length)

lemma ud_inv_final:
  assumes "ud_inv s N G N (L, w, \<beta>)"
  shows "is_shape N N L" "length w = N" "lower_tri L" "pos_diag L"
    "\<And>i k. i < N \<Longrightarrow> k < N \<Longrightarrow> gram L i k = G i k"
proof -
  from assms show sh: "is_shape N N L" and "length w = N"
    by (simp_all add: ud_inv_def)
  then have len: "length L = N" by (simp add: is_shape_length)
  from assms show "lower_tri L" "pos_diag L"
    by (simp_all add: ud_inv_def lower_tri_def pos_diag_def len)
  show "gram L i k = G i k" if "i < N" "k < N" for i k
    using assms that by (simp add: ud_inv_def gram_def len)
qed

lemma chol_update_real:
  assumes "is_shape N N L" "length w = N" "lower_tri L" "pos_diag L"
  shows "\<exists>L' w'. chol_update (fmat L) (fvec w) = Inr (fmat L', fvec w')
           \<and> is_shape N N L' \<and> length w' = N \<and> lower_tri L' \<and> pos_diag L'
           \<and> (\<forall>i<N. \<forall>k<N. gram L' i k = gram L i k + w ! i * w ! k)"
proof -
  have len: "length L = N" using assms(1) by (rule is_shape_length)
  obtain L' w' \<beta>' where
    run: "update_loop N 0 (fmat L, fvec w, Fin 1) = (fmat L', fvec w', Fin \<beta>')"
    and inv: "ud_inv 1 N (\<lambda>i k. gram L i k + 1 * (w ! i * w ! k)) N (L', w', \<beta>')"
    using update_loop_real [OF ud_inv_init [OF assms, where s = 1]] by auto
  have "chol_update (fmat L) (fvec w) = Inr (fmat L', fvec w')"
    using assms(1,2) by (simp add: chol_update_def Let_def len run)
  then show ?thesis
    using ud_inv_final [OF inv] by auto
qed

lemma chol_downdate_real:
  assumes "is_shape N N L" "length w = N" "lower_tri L" "pos_diag L"
    and ok: "chol_downdate (fmat L) (fvec w) = Inr R"
  shows "\<exists>L' w'. R = (fmat L', fvec w')
           \<and> is_shape N N L' \<and> length w' = N \<and> lower_tri L' \<and> pos_diag L'
           \<and> (\<forall>i<N. \<forall>k<N. gram L' i k = gram L i k - w ! i * w ! k)"
proof -
  have len: "length L = N" using assms(1) by (rule is_shape_length)
  have loop: "downdate_loop N 0 (fmat L, fvec w, Fin 1) \<noteq> Inl NotPositiveDefinite"
    using ok assms(1,2) by (auto simp: chol_downdate_def Let_def len)
  then obtain L' w' \<beta>' where
    run: "downdate_loop N 0 (fmat L, fvec w, Fin 1) = Inr (fmat L', fvec w', Fin \<beta>')"
    and inv: "ud_inv (- 1) N (\<lambda>i k. gram L i k + (- 1) * (w ! i * w ! k)) N (L', w', \<beta>')"
    using downdate_loop_real [OF ud_inv_init [OF assms(1-4), where s = "- 1"]] by auto
  have "chol_downdate (fmat L) (fvec w) = Inr (fmat L', fvec w')"
    using assms(1,2) by (simp add: chol_downdate_def Let_def len run)
  with ok have "R = (fmat L', fvec w')" by simp
  then show ?thesis
    using ud_inv_final [OF inv] by auto
qed

section \<open>Update and downdate on a factor with positive diagonal\<close>

text \<open>
  C2. On a lower-triangular \<open>L\<close> with positive diagonal and a vector \<open>w\<close> of its
  dimension, the factor \<open>L'\<close> that \<^verbatim>\<open>chol_update\<close> returns satisfies
  \<open>L' L'\<^sup>T = L L\<^sup>T + w w\<^sup>T\<close>, entry by entry (\<open>gram L i k\<close> is the entry \<open>(i, k)\<close> of
  \<open>L L\<^sup>T\<close>); whenever \<^verbatim>\<open>chol_downdate\<close> returns, its factor satisfies
  \<open>L' L'\<^sup>T = L L\<^sup>T - w w\<^sup>T\<close>; and the diagonal of \<open>L'\<close> is not negative in both cases.
\<close>

theorem chol_update_downdate_gram:
  assumes "is_shape N N L" and "length w = N" and "lower_tri L" and "pos_diag L"
  shows "(\<exists>L' w'. chol_update (fmat L) (fvec w) = Inr (fmat L', fvec w')
            \<and> is_shape N N L'
            \<and> (\<forall>i<N. \<forall>k<N. gram L' i k = gram L i k + w ! i * w ! k)
            \<and> (\<forall>i<N. 0 \<le> L' ! i ! i))
       \<and> (\<forall>R. chol_downdate (fmat L) (fvec w) = Inr R \<longrightarrow>
            (\<exists>L' w'. R = (fmat L', fvec w')
               \<and> is_shape N N L'
               \<and> (\<forall>i<N. \<forall>k<N. gram L' i k = gram L i k - w ! i * w ! k)
               \<and> (\<forall>i<N. 0 \<le> L' ! i ! i)))"
proof (intro conjI allI impI)
  obtain L' w' where u: "chol_update (fmat L) (fvec w) = Inr (fmat L', fvec w')"
    "is_shape N N L'" "pos_diag L'" "\<forall>i<N. \<forall>k<N. gram L' i k = gram L i k + w ! i * w ! k"
    using chol_update_real [OF assms] by blast
  have "\<forall>i<N. 0 \<le> L' ! i ! i"
    using u(2,3) by (auto simp: pos_diag_def is_shape_length less_imp_le)
  with u show "\<exists>L' w'. chol_update (fmat L) (fvec w) = Inr (fmat L', fvec w')
            \<and> is_shape N N L'
            \<and> (\<forall>i<N. \<forall>k<N. gram L' i k = gram L i k + w ! i * w ! k)
            \<and> (\<forall>i<N. 0 \<le> L' ! i ! i)"
    by blast
next
  fix R
  assume "chol_downdate (fmat L) (fvec w) = Inr R"
  from chol_downdate_real [OF assms this] obtain L' w' where d: "R = (fmat L', fvec w')"
    "is_shape N N L'" "pos_diag L'" "\<forall>i<N. \<forall>k<N. gram L' i k = gram L i k - w ! i * w ! k"
    by blast
  have "\<forall>i<N. 0 \<le> L' ! i ! i"
    using d(2,3) by (auto simp: pos_diag_def is_shape_length less_imp_le)
  with d show "\<exists>L' w'. R = (fmat L', fvec w')
               \<and> is_shape N N L'
               \<and> (\<forall>i<N. \<forall>k<N. gram L' i k = gram L i k - w ! i * w ! k)
               \<and> (\<forall>i<N. 0 \<le> L' ! i ! i)"
    by blast
qed

lemma sqrt_16_25: "sqrt (16 / 25) = 4 / 5"
  by (rule sqrt_of_square) simp_all

lemma sqrt_16_169: "sqrt (16 / 169) = 4 / 13"
  by (rule sqrt_of_square) simp_all

lemma sqrt_169_16: "sqrt (169 / 16) = 13 / 4"
  by (rule sqrt_of_square) simp_all

theorem chol_update_downdate_gram_witness:
  "is_shape 2 2 [[5, 0], [34 / 5, 13 / 5 :: real]] \<and> length [3, 6 :: real] = 2
   \<and> lower_tri [[5, 0], [34 / 5, 13 / 5]] \<and> pos_diag [[5, 0], [34 / 5, 13 / 5]]
   \<and> chol_downdate (fmat [[5, 0], [34 / 5, 13 / 5]]) (fvec [3, 6])
        = Inr (fmat [[4, 0], [4, 1]], fvec [3 / 5, 48 / 65])
   \<and> (\<exists>L' w'. chol_update (fmat [[5, 0], [34 / 5, 13 / 5]]) (fvec [3, 6]) = Inr (fmat L', fvec w')
          \<and> is_shape 2 2 L'
          \<and> (\<forall>i<2. \<forall>k<2. gram L' i k = gram [[5, 0], [34 / 5, 13 / 5]] i k + [3, 6] ! i * [3, 6] ! k)
          \<and> (\<forall>i<2. 0 \<le> L' ! i ! i))
   \<and> (\<exists>L' w'. (fmat [[4, 0], [4, 1]], fvec [3 / 5, 48 / 65]) = (fmat L', fvec w')
          \<and> is_shape 2 2 L'
          \<and> (\<forall>i<2. \<forall>k<2. gram L' i k = gram [[5, 0], [34 / 5, 13 / 5]] i k - [3, 6] ! i * [3, 6] ! k)
          \<and> (\<forall>i<2. 0 \<le> L' ! i ! i))"
proof -
  have sh: "is_shape 2 2 [[5, 0], [34 / 5, 13 / 5 :: real]]" by (simp add: is_shape_def)
  have len: "length [3, 6 :: real] = 2" by simp
  have tri: "lower_tri [[5, 0], [34 / 5, 13 / 5]]"
    by (simp add: lower_tri_def All_less_Suc)
  have pos: "pos_diag [[5, 0], [34 / 5, 13 / 5]]"
    by (simp add: pos_diag_def All_less_Suc)
  have down: "chol_downdate (fmat [[5, 0], [34 / 5, 13 / 5]]) (fvec [3, 6])
        = Inr (fmat [[4, 0], [4, 1]], fvec [3 / 5, 48 / 65])"
    by (simp add: updown_eval array_eval fmat_def fvec_def sqrt_16_25 sqrt_16_169)
  show ?thesis
    using sh len tri pos down chol_update_downdate_gram [OF sh len tri pos] by blast
qed

section \<open>The factor is unique; update followed by downdate\<close>

lemma gram_lower_tri:
  assumes tri: "lower_tri L" and len: "length L = N" and c: "c < N"
  shows "gram L i c = (\<Sum>d<c. L ! i ! d * L ! c ! d) + L ! i ! c * L ! c ! c"
proof -
  have "(\<Sum>d<Suc c. L ! i ! d * L ! c ! d) = (\<Sum>d<N. L ! i ! d * L ! c ! d)"
  proof (rule sum.mono_neutral_left)
    show "finite {..<N}" by simp
    show "{..<Suc c} \<subseteq> {..<N}" using c by auto
    show "\<forall>d\<in>{..<N} - {..<Suc c}. L ! i ! d * L ! c ! d = 0"
      using tri c len by (auto simp: lower_tri_def)
  qed
  then show ?thesis by (simp add: gram_def len)
qed

lemma cholesky_unique:
  assumes shL: "is_shape N N L" and shM: "is_shape N N M"
    and triL: "lower_tri L" and triM: "lower_tri M"
    and posL: "pos_diag L" and posM: "pos_diag M"
    and eq: "\<And>i k. i < N \<Longrightarrow> k < N \<Longrightarrow> gram L i k = gram M i k"
  shows "L = M"
proof -
  have lenL: "length L = N" and lenM: "length M = N"
    using shL shM by (simp_all add: is_shape_length)
  have col: "c < N \<Longrightarrow> \<forall>i<N. L ! i ! c = M ! i ! c" for c
  proof (induction c rule: less_induct)
    case (less c)
    have prev: "(\<Sum>d<c. L ! i ! d * L ! c ! d) = (\<Sum>d<c. M ! i ! d * M ! c ! d)" if "i < N" for i
      by (rule sum.cong) (use less that in auto)
    have prod: "L ! i ! c * L ! c ! c = M ! i ! c * M ! c ! c" if "i < N" for i
      using eq [OF that less.prems] prev [OF that]
      by (simp add: gram_lower_tri [OF triL lenL less.prems] gram_lower_tri [OF triM lenM less.prems])
    have pl: "0 < L ! c ! c" and pm: "0 < M ! c ! c"
      using posL posM less.prems by (simp_all add: pos_diag_def lenL lenM)
    have "(L ! c ! c)\<^sup>2 = (M ! c ! c)\<^sup>2"
      using prod [OF less.prems] by (simp add: power2_eq_square)
    then have diag: "L ! c ! c = M ! c ! c"
      using pl pm by (simp add: power2_eq_iff_nonneg)
    show ?case
    proof (intro allI impI)
      fix i assume "i < N"
      from prod [OF this] show "L ! i ! c = M ! i ! c"
        using pm by (simp add: diag)
    qed
  qed
  show ?thesis
  proof (rule nth_equalityI)
    show "length L = length M" by (simp add: lenL lenM)
    fix i assume "i < length L"
    then have i: "i < N" by (simp add: lenL)
    show "L ! i = M ! i"
    proof (rule nth_equalityI)
      show "length (L ! i) = length (M ! i)"
        using is_shape_row [OF shL i] is_shape_row [OF shM i] by simp
      fix c assume "c < length (L ! i)"
      then have "c < N" using is_shape_row [OF shL i] by simp
      then show "L ! i ! c = M ! i ! c" using col i by blast
    qed
  qed
qed

lemma chol_downdate_cases:
  assumes "is_shape N N L" "length w = N" "lower_tri L" "pos_diag L"
  shows "chol_downdate (fmat L) (fvec w) = Inl NotPositiveDefinite
         \<or> (\<exists>R. chol_downdate (fmat L) (fvec w) = Inr R)"
proof -
  have len: "length L = N" using assms(1) by (rule is_shape_length)
  show ?thesis
    using downdate_loop_real [OF ud_inv_init [OF assms(1-4), where s = "- 1"]] assms(1,2)
    by (auto simp: chol_downdate_def Let_def len)
qed

declare downdate_loop_store.simps [simp del]

section \<open>Failure of the downdate\<close>

lemma downdate_step_Inl:
  "downdate_step j st = Inl e \<longleftrightarrow> e = NotPositiveDefinite \<and> downdate_guard j st"
  by (cases st) (auto simp: downdate_step_def downdate_head_def downdate_guard_def Let_def
      split: sum.splits)

lemma downdate_step_Inr: "downdate_step j st = Inr st' \<Longrightarrow> \<not> downdate_guard j st"
  using downdate_step_Inl [of j st NotPositiveDefinite] by auto

lemma downdate_prefix_Suc:
  "downdate_prefix (Suc j) L w =
     (case downdate_prefix j L w of Inl e \<Rightarrow> Inl e | Inr st \<Rightarrow> downdate_step j st)"
  by (simp add: downdate_prefix_def for_loop_append split: sum.splits)

lemma downdate_prefix_earlier:
  assumes "downdate_prefix j L w = Inr st" and "i < j"
  shows "\<exists>st'. downdate_prefix i L w = Inr st' \<and> \<not> downdate_guard i st'"
  using assms
proof (induction j arbitrary: st)
  case 0
  then show ?case by simp
next
  case (Suc j)
  from Suc.prems(1) obtain st1 where p: "downdate_prefix j L w = Inr st1"
    and s: "downdate_step j st1 = Inr st"
    by (auto simp: downdate_prefix_Suc split: sum.splits)
  show ?case
  proof (cases "i = j")
    case True
    then show ?thesis using p downdate_step_Inr [OF s] by blast
  next
    case False
    then show ?thesis using Suc.IH [OF p] Suc.prems(2) by simp
  qed
qed

lemma chol_downdate_prefix:
  assumes "is_shape N N L" "length w = N"
  shows "chol_downdate L w =
     (case downdate_prefix N L w of Inl e \<Rightarrow> Inl e | Inr (L', w', \<beta>) \<Rightarrow> Inr (L', w'))"
proof -
  have len: "length L = N" using assms(1) by (rule is_shape_length)
  have "downdate_loop N 0 (L, w, Fin 1) = downdate_prefix N L w"
    using downdate_loop_prefix [of N N L w "Fin 1"] len assms(2)
    by (simp add: downdate_prefix_def downdate_loop_end split: sum.splits)
  then show ?thesis
    using assms by (simp add: chol_downdate_def Let_def len)
qed

lemma chol_downdate_fails_iff:
  assumes "is_shape N N L" "length w = N"
  shows "chol_downdate L w = Inl e \<longleftrightarrow>
         e = NotPositiveDefinite
         \<and> (\<exists>j<N. (\<exists>st. downdate_prefix j L w = Inr st \<and> downdate_guard j st)
                  \<and> (\<forall>i<j. \<exists>st. downdate_prefix i L w = Inr st \<and> \<not> downdate_guard i st))"
proof
  assume "chol_downdate L w = Inl e"
  then have "for_loop [0..<N] downdate_step (L, w, Fin 1) = Inl e"
    by (auto simp: chol_downdate_prefix [OF assms] downdate_prefix_def split: sum.splits)
  from for_loop_Inl [OF this] obtain j st where j: "j < N"
    and p: "downdate_prefix j L w = Inr st" and s: "downdate_step j st = Inl e"
    by (auto simp: downdate_prefix_def)
  from s have "e = NotPositiveDefinite" "downdate_guard j st"
    by (simp_all add: downdate_step_Inl)
  then show "e = NotPositiveDefinite
         \<and> (\<exists>j<N. (\<exists>st. downdate_prefix j L w = Inr st \<and> downdate_guard j st)
                  \<and> (\<forall>i<j. \<exists>st. downdate_prefix i L w = Inr st \<and> \<not> downdate_guard i st))"
    using j p downdate_prefix_earlier [OF p] by blast
next
  assume "e = NotPositiveDefinite
         \<and> (\<exists>j<N. (\<exists>st. downdate_prefix j L w = Inr st \<and> downdate_guard j st)
                  \<and> (\<forall>i<j. \<exists>st. downdate_prefix i L w = Inr st \<and> \<not> downdate_guard i st))"
  then obtain j st where e: "e = NotPositiveDefinite" and j: "j < N"
    and p: "downdate_prefix j L w = Inr st" and g: "downdate_guard j st"
    by blast
  have s: "downdate_prefix (Suc j) L w = Inl NotPositiveDefinite"
    using p g by (simp add: downdate_prefix_Suc downdate_step_Inl)
  have "[0..<N] = [0..<Suc j] @ [Suc j..<N]"
    using j by (metis Suc_leI upt_add_eq_append le_add_diff_inverse zero_le)
  then have "downdate_prefix N L w = Inl NotPositiveDefinite"
    using s unfolding downdate_prefix_def by (simp only: for_loop_append) simp
  then show "chol_downdate L w = Inl e"
    by (simp add: chol_downdate_prefix [OF assms] e)
qed

lemma write_arrays_simps:
  "length (mats (write_arrays aL aw L w \<sigma>)) = length (mats \<sigma>)"
  "length (vecs (write_arrays aL aw L w \<sigma>)) = length (vecs \<sigma>)"
  "aL < length (mats \<sigma>) \<Longrightarrow> mats (write_arrays aL aw L w \<sigma>) ! aL = L"
  "aw < length (vecs \<sigma>) \<Longrightarrow> vecs (write_arrays aL aw L w \<sigma>) ! aw = w"
  "p \<noteq> aL \<Longrightarrow> mats (write_arrays aL aw L w \<sigma>) ! p = mats \<sigma> ! p"
  "p \<noteq> aw \<Longrightarrow> vecs (write_arrays aL aw L w \<sigma>) ! p = vecs \<sigma> ! p"
  by (simp_all add: write_arrays_def)

lemma downdate_loop_store_ok:
  assumes "aL < length (mats \<sigma>)" "aw < length (vecs \<sigma>)"
  shows "store_run_ok aL aw \<sigma> (downdate_loop_store N aL aw j \<beta> \<sigma>)
           (downdate_loop N j (mats \<sigma> ! aL, vecs \<sigma> ! aw, \<beta>))"
  using assms
proof (induction N aL aw j \<beta> \<sigma> rule: downdate_loop_store.induct)
  case (1 N aL aw j \<beta> \<sigma>)
  show ?case
  proof (cases "j < N")
    case False
    then show ?thesis
      by (subst downdate_loop_store.simps, subst downdate_loop.simps)
        (simp add: store_run_ok_def)
  next
    case j: True
    show ?thesis
    proof (cases "downdate_head j (mats \<sigma> ! aL, vecs \<sigma> ! aw, \<beta>)")
      case (Inl e)
      then show ?thesis
        using j by (subst downdate_loop_store.simps, subst downdate_loop.simps)
          (simp add: store_run_ok_def)
    next
      case (Inr x)
      obtain L1 w1 \<beta>2 \<alpha> \<gamma> \<delta> where x: "x = ((L1, w1, \<beta>2), \<alpha>, \<gamma>, \<delta>)"
        by (metis prod_cases3)
      define \<sigma>1 where "\<sigma>1 = write_arrays aL aw L1 w1 \<sigma>"
      show ?thesis
      proof (cases "j = N - 1")
        case True
        then show ?thesis
          using j Inr x "1.prems"
          by (subst downdate_loop_store.simps, subst downdate_loop.simps)
            (simp add: store_run_ok_def write_arrays_simps)
      next
        case False
        obtain L2 w2 \<beta>' where t: "downdate_tail j x = (L2, w2, \<beta>')"
          by (metis prod_cases3)
        define \<sigma>2 where "\<sigma>2 = write_arrays aL aw L2 w2 \<sigma>1"
        have lens: "aL < length (mats \<sigma>2)" "aw < length (vecs \<sigma>2)"
          using "1.prems" by (simp_all add: \<sigma>2_def \<sigma>1_def write_arrays_simps)
        have IH: "store_run_ok aL aw \<sigma>2 (downdate_loop_store N aL aw (Suc j) \<beta>' \<sigma>2)
                    (downdate_loop N (Suc j) (mats \<sigma>2 ! aL, vecs \<sigma>2 ! aw, \<beta>'))"
          using "1.IH" [OF j Inr x [symmetric] refl refl refl refl \<sigma>1_def False t [symmetric] refl lens [unfolded \<sigma>2_def]]
          by (simp add: \<sigma>2_def)
        have cont: "mats \<sigma>2 ! aL = L2" "vecs \<sigma>2 ! aw = w2"
          using "1.prems" by (simp_all add: \<sigma>2_def \<sigma>1_def write_arrays_simps)
        have frame: "length (mats \<sigma>2) = length (mats \<sigma>)" "length (vecs \<sigma>2) = length (vecs \<sigma>)"
          "\<And>p. p \<noteq> aL \<Longrightarrow> mats \<sigma>2 ! p = mats \<sigma> ! p"
          "\<And>p. p \<noteq> aw \<Longrightarrow> vecs \<sigma>2 ! p = vecs \<sigma> ! p"
          by (simp_all add: \<sigma>2_def \<sigma>1_def write_arrays_simps)
        have l: "downdate_loop_store N aL aw j \<beta> \<sigma> = downdate_loop_store N aL aw (Suc j) \<beta>' \<sigma>2"
          using j Inr x False t
          by (subst downdate_loop_store.simps) (simp add: \<sigma>2_def \<sigma>1_def Let_def)
        have r: "downdate_loop N j (mats \<sigma> ! aL, vecs \<sigma> ! aw, \<beta>)
                 = downdate_loop N (Suc j) (L2, w2, \<beta>')"
          using j Inr False t by (subst downdate_loop.simps) simp
        show ?thesis
          using IH unfolding l r cont
          by (auto simp: store_run_ok_def frame split: sum.splits)
      qed
    qed
  qed
qed

lemma chol_downdate_call_ok:
  assumes "pL < length (mats \<sigma>)" "pw < length (vecs \<sigma>)"
  shows "case chol_downdate_call \<sigma> pL pw of
           (\<sigma>', r) \<Rightarrow>
             take (length (mats \<sigma>)) (mats \<sigma>') = mats \<sigma>
             \<and> take (length (vecs \<sigma>)) (vecs \<sigma>') = vecs \<sigma>
             \<and> (case chol_downdate (mats \<sigma> ! pL) (vecs \<sigma> ! pw) of
                   Inl e \<Rightarrow> r = Inl e
                 | Inr (L', w') \<Rightarrow> (\<exists>aL aw. r = Inr (aL, aw) \<and> mats \<sigma>' ! aL = L' \<and> vecs \<sigma>' ! aw = w'))"
proof -
  define L where "L = mats \<sigma> ! pL"
  define w where "w = vecs \<sigma> ! pw"
  define aL where "aL = length (mats \<sigma>)"
  define aw where "aw = length (vecs \<sigma>)"
  define \<sigma>2 where "\<sigma>2 = \<sigma>\<lparr>mats := mats \<sigma> @ [L], vecs := vecs \<sigma> @ [w]\<rparr>"
  define N where "N = length L"
  have c: "copy_mat \<sigma> pL = (\<sigma>\<lparr>mats := mats \<sigma> @ [L]\<rparr>, aL)"
    "copy_vec (\<sigma>\<lparr>mats := mats \<sigma> @ [L]\<rparr>) pw = (\<sigma>2, aw)"
    by (simp_all add: copy_mat_def copy_vec_def L_def w_def aL_def aw_def \<sigma>2_def)
  have s2: "mats \<sigma>2 ! aL = L" "vecs \<sigma>2 ! aw = w" "aL < length (mats \<sigma>2)" "aw < length (vecs \<sigma>2)"
    "take (length (mats \<sigma>)) (mats \<sigma>2) = mats \<sigma>" "take (length (vecs \<sigma>)) (vecs \<sigma>2) = vecs \<sigma>"
    by (simp_all add: \<sigma>2_def aL_def aw_def)
  show ?thesis
  proof (cases "is_shape N N L \<and> length w = N")
    case False
    then show ?thesis
      by (auto simp: chol_downdate_call_def c s2 Let_def chol_downdate_def
          simp flip: L_def w_def N_def)
  next
    case True
    obtain \<sigma>3 r where run: "downdate_loop_store N aL aw 0 (Fin 1) \<sigma>2 = (\<sigma>3, r)"
      by (cases "downdate_loop_store N aL aw 0 (Fin 1) \<sigma>2") auto
    have ok: "store_run_ok aL aw \<sigma>2 (\<sigma>3, r) (downdate_loop N 0 (L, w, Fin 1))"
      using downdate_loop_store_ok [OF s2(3,4), of N 0 "Fin 1"] by (simp add: run s2)
    have pre: "take (length (mats \<sigma>)) (mats \<sigma>3) = mats \<sigma>"
    proof (rule nth_equalityI)
      show "length (take (length (mats \<sigma>)) (mats \<sigma>3)) = length (mats \<sigma>)"
        using ok by (simp add: store_run_ok_def \<sigma>2_def)
      fix p assume "p < length (take (length (mats \<sigma>)) (mats \<sigma>3))"
      then have p: "p < length (mats \<sigma>)" by simp
      then have "mats \<sigma>3 ! p = mats \<sigma>2 ! p"
        using ok by (simp add: store_run_ok_def aL_def)
      then show "take (length (mats \<sigma>)) (mats \<sigma>3) ! p = mats \<sigma> ! p"
        using p by (simp add: \<sigma>2_def nth_append)
    qed
    have prv: "take (length (vecs \<sigma>)) (vecs \<sigma>3) = vecs \<sigma>"
    proof (rule nth_equalityI)
      show "length (take (length (vecs \<sigma>)) (vecs \<sigma>3)) = length (vecs \<sigma>)"
        using ok by (simp add: store_run_ok_def \<sigma>2_def)
      fix p assume "p < length (take (length (vecs \<sigma>)) (vecs \<sigma>3))"
      then have p: "p < length (vecs \<sigma>)" by simp
      then have "vecs \<sigma>3 ! p = vecs \<sigma>2 ! p"
        using ok by (simp add: store_run_ok_def aw_def)
      then show "take (length (vecs \<sigma>)) (vecs \<sigma>3) ! p = vecs \<sigma> ! p"
        using p by (simp add: \<sigma>2_def nth_append)
    qed
    have call: "chol_downdate_call \<sigma> pL pw
                = (\<sigma>3, case r of Inl e \<Rightarrow> Inl e | Inr u \<Rightarrow> Inr (aL, aw))"
      using True by (simp add: chol_downdate_call_def c s2 Let_def run
          flip: N_def split: sum.splits)
    have pure: "chol_downdate L w = (case downdate_loop N 0 (L, w, Fin 1) of
                   Inl e \<Rightarrow> Inl e | Inr (L', w', \<beta>) \<Rightarrow> Inr (L', w'))"
      using True by (simp add: chol_downdate_def Let_def flip: N_def)
    show ?thesis
      using ok unfolding call pure L_def [symmetric] w_def [symmetric]
      by (auto simp: store_run_ok_def pre prv split: sum.splits)
  qed
qed

lemma downdate_guard_abs:
  assumes "0 < l" "0 < b" "L ! j ! j = Fin l" "w ! j = Fin a"
  shows "downdate_guard j (L, w, Fin b) \<longleftrightarrow> b * l \<le> \<bar>a\<bar>"
proof -
  have "downdate_guard j (L, w, Fin b) \<longleftrightarrow> b * b \<le> (a / l) * (a / l)"
    using assms by (simp add: downdate_guard_def Let_def)
  also have "\<dots> \<longleftrightarrow> b\<^sup>2 \<le> (\<bar>a\<bar> / l)\<^sup>2"
    by (simp add: power2_eq_square)
  also have "\<dots> \<longleftrightarrow> b \<le> \<bar>a\<bar> / l"
    using assms(1,2) by (intro power2_le_iff_abs_le [THEN trans]) auto
  also have "\<dots> \<longleftrightarrow> b * l \<le> \<bar>a\<bar>"
    using assms(1) by (simp add: pos_le_divide_eq)
  finally show ?thesis .
qed

lemma downdate_prefix_real:
  assumes "is_shape N N L" "length w = N" "lower_tri L" "pos_diag L" and "j \<le> N"
    and "downdate_prefix j (fmat L) (fvec w) = Inr st"
  shows "\<exists>Lj wj b. st = (fmat Lj, fvec wj, Fin b)
           \<and> ud_inv (- 1) N (\<lambda>i k. gram L i k + (- 1) * (w ! i * w ! k)) j (Lj, wj, b)"
  using assms(5,6)
proof (induction j arbitrary: st)
  case 0
  then show ?case
    using ud_inv_init [OF assms(1-4), where s = "- 1"] by (auto simp: downdate_prefix_def)
next
  case (Suc j)
  from Suc.prems(2) obtain st1 where p: "downdate_prefix j (fmat L) (fvec w) = Inr st1"
    and s: "downdate_step j st1 = Inr st"
    by (auto simp: downdate_prefix_Suc split: sum.splits)
  from Suc.IH [OF _ p] Suc.prems(1) obtain Lj wj b where st1: "st1 = (fmat Lj, fvec wj, Fin b)"
    and inv: "ud_inv (- 1) N (\<lambda>i k. gram L i k + (- 1) * (w ! i * w ! k)) j (Lj, wj, b)"
    by auto
  have j: "j < N" using Suc.prems(1) by simp
  from inv have sh: "is_shape N N Lj" "length wj = N" and b: "0 < b" and nz: "Lj ! j ! j \<noteq> 0"
    using j by (auto simp: ud_inv_def)
  from s obtain L' w' b' where real: "downdate_step_real j (Lj, wj, b) = Some (L', w', b')"
    and st: "st = (fmat L', fvec w', Fin b')"
    using downdate_step_sim [OF sh j nz b] by (auto simp: st1 split: option.splits)
  show ?case
    using downdate_step_real_inv [OF inv j real] st by blast
qed

lemma downdate_reached_positive:
  assumes "is_shape N N L" "length w = N" "lower_tri L" "pos_diag L" and "j < N"
    and "downdate_prefix j (fmat L) (fvec w) = Inr st"
  shows "\<exists>Lj wj b. st = (fmat Lj, fvec wj, Fin b) \<and> 0 < b \<and> 0 < Lj ! j ! j
           \<and> (downdate_guard j st \<longleftrightarrow> b * Lj ! j ! j \<le> \<bar>wj ! j\<bar>)"
proof -
  from downdate_prefix_real [OF assms(1-4) _ assms(6)] assms(5)
  obtain Lj wj b where st: "st = (fmat Lj, fvec wj, Fin b)"
    and inv: "ud_inv (- 1) N (\<lambda>i k. gram L i k + (- 1) * (w ! i * w ! k)) j (Lj, wj, b)"
    by auto
  from inv have sh: "is_shape N N Lj" "length wj = N" and b: "0 < b" and pos: "0 < Lj ! j ! j"
    using assms(5) by (auto simp: ud_inv_def)
  have "downdate_guard j (fmat Lj, fvec wj, Fin b) \<longleftrightarrow> b * Lj ! j ! j \<le> \<bar>wj ! j\<bar>"
    using pos b
  proof (rule downdate_guard_abs)
    show "fmat Lj ! j ! j = Fin (Lj ! j ! j)" using nth_fmat [OF sh(1) assms(5) assms(5)] .
    show "fvec wj ! j = Fin (wj ! j)" using assms(5) sh(2) by (simp add: nth_fvec)
  qed
  then show ?thesis using st b pos by blast
qed

text \<open>
  C3. \<^verbatim>\<open>chol_downdate\<close> fails exactly when some column \<open>j\<close> is reached (no earlier column
  stopped the loop) at which \<open>\<alpha>\<^sup>2 \<ge> \<beta>\<^sup>2\<close>, and its only failure is
  \<open>NotPositiveDefinite\<close>. For a positive diagonal entry and a positive \<open>\<beta>\<close> the test is
  \<open>|w[j]| \<ge> \<beta> L[j, j]\<close>; and when \<open>L\<close> is a factor (lower triangular, positive diagonal,
  finite entries) every column that is reached has such a diagonal entry and such a
  \<open>\<beta>\<close>. The call works on copies: whatever its outcome, the arrays of the caller are
  as they were, and on failure it returns the error alone.
\<close>

theorem chol_downdate_failure:
  assumes "is_shape N N L" and "length w = N"
    and "pL < length (mats \<sigma>)" and "pw < length (vecs \<sigma>)"
    and "mats \<sigma> ! pL = L" and "vecs \<sigma> ! pw = w"
  shows "(\<forall>e. chol_downdate L w = Inl e \<longleftrightarrow>
            e = NotPositiveDefinite
            \<and> (\<exists>j<N. (\<exists>st. downdate_prefix j L w = Inr st \<and> downdate_guard j st)
                     \<and> (\<forall>i<j. \<exists>st. downdate_prefix i L w = Inr st \<and> \<not> downdate_guard i st)))
       \<and> (\<forall>j L' w' b l a. 0 < l \<and> 0 < b \<and> L' ! j ! j = Fin l \<and> w' ! j = Fin a \<longrightarrow>
            (downdate_guard j (L', w', Fin b) \<longleftrightarrow> b * l \<le> \<bar>a\<bar>))
       \<and> (\<forall>Lr wr j st. L = fmat Lr \<and> w = fvec wr \<and> lower_tri Lr \<and> pos_diag Lr \<and> j < N
              \<and> downdate_prefix j L w = Inr st \<longrightarrow>
            (\<exists>Lj wj b. st = (fmat Lj, fvec wj, Fin b) \<and> 0 < b \<and> 0 < Lj ! j ! j
               \<and> (downdate_guard j st \<longleftrightarrow> b * Lj ! j ! j \<le> \<bar>wj ! j\<bar>)))
       \<and> mats (fst (chol_downdate_call \<sigma> pL pw)) ! pL = L
       \<and> vecs (fst (chol_downdate_call \<sigma> pL pw)) ! pw = w
       \<and> (\<forall>e. chol_downdate L w = Inl e \<longrightarrow> snd (chol_downdate_call \<sigma> pL pw) = Inl e)"
proof (intro conjI allI impI)
  fix e
  show "chol_downdate L w = Inl e \<longleftrightarrow>
            e = NotPositiveDefinite
            \<and> (\<exists>j<N. (\<exists>st. downdate_prefix j L w = Inr st \<and> downdate_guard j st)
                     \<and> (\<forall>i<j. \<exists>st. downdate_prefix i L w = Inr st \<and> \<not> downdate_guard i st))"
    using assms(1,2) by (rule chol_downdate_fails_iff)
next
  fix j :: nat and L' :: mat and w' :: vec and b l a :: real
  assume "0 < l \<and> 0 < b \<and> L' ! j ! j = Fin l \<and> w' ! j = Fin a"
  then show "downdate_guard j (L', w', Fin b) \<longleftrightarrow> b * l \<le> \<bar>a\<bar>"
    by (intro downdate_guard_abs) auto
next
  fix Lr :: "real list list" and wr :: "real list" and j :: nat and st :: ud_state
  assume h: "L = fmat Lr \<and> w = fvec wr \<and> lower_tri Lr \<and> pos_diag Lr \<and> j < N
              \<and> downdate_prefix j L w = Inr st"
  then have sh: "is_shape N N Lr" and len: "length wr = N"
    using assms(1,2) by simp_all
  from h have tri: "lower_tri Lr" and pos: "pos_diag Lr" and j: "j < N"
    and pre: "downdate_prefix j (fmat Lr) (fvec wr) = Inr st"
    by auto
  show "\<exists>Lj wj b. st = (fmat Lj, fvec wj, Fin b) \<and> 0 < b \<and> 0 < Lj ! j ! j
               \<and> (downdate_guard j st \<longleftrightarrow> b * Lj ! j ! j \<le> \<bar>wj ! j\<bar>)"
    using sh len tri pos j pre by (rule downdate_reached_positive)
next
  obtain \<sigma>' r where call: "chol_downdate_call \<sigma> pL pw = (\<sigma>', r)"
    by (cases "chol_downdate_call \<sigma> pL pw") auto
  from chol_downdate_call_ok [OF assms(3,4)] have
    m: "take (length (mats \<sigma>)) (mats \<sigma>') = mats \<sigma>"
    and v: "take (length (vecs \<sigma>)) (vecs \<sigma>') = vecs \<sigma>"
    and res: "case chol_downdate L w of
                   Inl e \<Rightarrow> r = Inl e
                 | Inr (L', w') \<Rightarrow> (\<exists>aL aw. r = Inr (aL, aw) \<and> mats \<sigma>' ! aL = L' \<and> vecs \<sigma>' ! aw = w')"
    by (simp_all add: call assms(5,6))
  have "mats \<sigma>' ! pL = take (length (mats \<sigma>)) (mats \<sigma>') ! pL"
    using assms(3) by simp
  then show "mats (fst (chol_downdate_call \<sigma> pL pw)) ! pL = L"
    by (simp add: call m assms(5))
  have "vecs \<sigma>' ! pw = take (length (vecs \<sigma>)) (vecs \<sigma>') ! pw"
    using assms(4) by simp
  then show "vecs (fst (chol_downdate_call \<sigma> pL pw)) ! pw = w"
    by (simp add: call v assms(6))
  fix e assume "chol_downdate L w = Inl e"
  then show "snd (chol_downdate_call \<sigma> pL pw) = Inl e"
    using res by (simp add: call)
qed

theorem chol_downdate_failure_witness:
  "is_shape 2 2 [[Fin 1, Fin 0], [Fin 0, Fin 1]] \<and> length [Fin 0, Fin 2] = 2
   \<and> 0 < length (mats \<lparr>mats = [[[Fin 1, Fin 0], [Fin 0, Fin 1]]], vecs = [[Fin 0, Fin 2]]\<rparr>)
   \<and> 0 < length (vecs \<lparr>mats = [[[Fin 1, Fin 0], [Fin 0, Fin 1]]], vecs = [[Fin 0, Fin 2]]\<rparr>)
   \<and> downdate_prefix 1 [[Fin 1, Fin 0], [Fin 0, Fin 1]] [Fin 0, Fin 2]
        = Inr ([[Fin 1, Fin 0], [Fin 0, Fin 1]], [Fin 0, Fin 2], Fin 1)
   \<and> \<not> downdate_guard 0 ([[Fin 1, Fin 0], [Fin 0, Fin 1]], [Fin 0, Fin 2], Fin 1)
   \<and> downdate_guard 1 ([[Fin 1, Fin 0], [Fin 0, Fin 1]], [Fin 0, Fin 2], Fin 1)
   \<and> chol_downdate [[Fin 1, Fin 0], [Fin 0, Fin 1]] [Fin 0, Fin 2] = Inl NotPositiveDefinite
   \<and> mats (fst (chol_downdate_call
        \<lparr>mats = [[[Fin 1, Fin 0], [Fin 0, Fin 1]]], vecs = [[Fin 0, Fin 2]]\<rparr> 0 0)) ! 0
        = [[Fin 1, Fin 0], [Fin 0, Fin 1]]
   \<and> snd (chol_downdate_call
        \<lparr>mats = [[[Fin 1, Fin 0], [Fin 0, Fin 1]]], vecs = [[Fin 0, Fin 2]]\<rparr> 0 0)
        = Inl NotPositiveDefinite"
proof -
  define L where "L = [[Fin 1, Fin 0], [Fin 0, Fin 1]]"
  define w where "w = [Fin 0, Fin 2]"
  define \<sigma> where "\<sigma> = \<lparr>mats = [L], vecs = [w]\<rparr>"
  have sh: "is_shape 2 2 L" by (simp add: is_shape_def L_def)
  have len: "length w = 2" by (simp add: w_def)
  have pL: "0 < length (mats \<sigma>)" and pw: "0 < length (vecs \<sigma>)"
    and cL: "mats \<sigma> ! 0 = L" and cw: "vecs \<sigma> ! 0 = w"
    by (simp_all add: \<sigma>_def)
  have pre: "downdate_prefix 1 L w = Inr (L, w, Fin 1)"
    by (simp add: downdate_prefix_def downdate_step_def downdate_head_def downdate_tail_def
        array_eval L_def w_def)
  have g0: "\<not> downdate_guard 0 (L, w, Fin 1)" and g1: "downdate_guard 1 (L, w, Fin 1)"
    by (simp_all add: downdate_guard_def L_def w_def)
  have "\<exists>j<2. (\<exists>st. downdate_prefix j L w = Inr st \<and> downdate_guard j st)
             \<and> (\<forall>i<j. \<exists>st. downdate_prefix i L w = Inr st \<and> \<not> downdate_guard i st)"
  proof (intro exI [of _ 1] conjI allI impI)
    show "(1::nat) < 2" by simp
    show "\<exists>st. downdate_prefix 1 L w = Inr st \<and> downdate_guard 1 st"
      using pre g1 by blast
    fix i :: nat assume "i < 1"
    then have "i = 0" by simp
    then show "\<exists>st. downdate_prefix i L w = Inr st \<and> \<not> downdate_guard i st"
      using g0 by (simp add: downdate_prefix_def)
  qed
  then have fail: "chol_downdate L w = Inl NotPositiveDefinite"
    using chol_downdate_failure [OF sh len pL pw cL cw] by blast
  show ?thesis
    using sh len pL pw pre g0 g1 fail chol_downdate_failure [OF sh len pL pw cL cw]
    unfolding L_def w_def \<sigma>_def by simp
qed

section \<open>The up-looking factorization after a negative radicand\<close>

lemma for_loop_invariant:
  assumes "for_loop ks body st = Inr st'" and "P st"
    and "\<And>k s s'. k \<in> set ks \<Longrightarrow> P s \<Longrightarrow> body k s = Inr s' \<Longrightarrow> P s'"
  shows "P st'"
  using assms
proof (induction ks arbitrary: st)
  case Nil
  then show ?case by simp
next
  case (Cons k ks)
  from Cons.prems(1) obtain s1 where b: "body k st = Inr s1" and r: "for_loop ks body s1 = Inr st'"
    by (auto split: sum.splits)
  have "P s1" using Cons.prems(3) [OF _ Cons.prems(2) b] by simp
  then show ?case
    using Cons.IH [OF r] Cons.prems(3) by auto
qed

lemma is_shape_zeros: "is_shape m n (zeros m n)"
  by (simp add: is_shape_iff zeros_def)

lemma length_fold_snoc: "length (fold (\<lambda>i x. x @ [g i x]) xs acc) = length acc + length xs"
  by (induction xs arbitrary: acc) auto

lemma length_forward_subst: "length (forward_subst a b) = length a"
  by (simp add: forward_subst_def length_fold_snoc)

lemma la_solve_length: "la_solve a b = Inr x \<Longrightarrow> length x = length a"
  by (auto simp: la_solve_def length_forward_subst split: if_splits)

lemma length_block: "r2 \<le> length M \<Longrightarrow> length (block M r1 r2 c1 c2) = r2 - r1"
  by (simp add: block_def)

lemma chol_up_row_shape:
  assumes "is_shape N N L" "k < N" "chol_up_row A k L = Inr L1"
  shows "is_shape N N L1"
proof -
  from assms(3) obtain x where x: "la_solve (block L 0 k 0 k) (map (\<lambda>r. r ! k) (take k A)) = Inr x"
    and L1: "L1 = L[k := x @ drop k (L ! k)]"
    by (auto simp: chol_up_row_def split: sum.splits)
  have "length x = k"
    using la_solve_length [OF x] assms(1,2) by (simp add: length_block is_shape_length)
  then show ?thesis
    using assms(1,2) by (auto simp: L1 is_shape_iff nth_list_update)
qed

lemma chol_up_step_shape:
  assumes "is_shape N N L" "k < N" "chol_up_step A k L = Inr L2"
  shows "is_shape N N L2"
  using assms chol_up_row_shape [OF assms(1,2)]
  by (auto simp: chol_up_step_def shape_set2 split: sum.splits)

lemma chol_up_prefix_shape:
  assumes "for_loop [0..<k] (chol_up_step A) (zeros N N) = Inr L" "k \<le> N"
  shows "is_shape N N L"
  using assms(1)
proof (rule for_loop_invariant)
  show "is_shape N N (zeros N N)" by (rule is_shape_zeros)
  fix j s s' assume "j \<in> set [0..<k]" "is_shape N N s" "chol_up_step A j s = Inr s'"
  then show "is_shape N N s'"
    using assms(2) by (intro chol_up_step_shape [of N s j A s']) auto
qed

lemma la_solve_not_finite:
  assumes "i < length a" "j < length (a ! i)" "\<not> is_fin (a ! i ! j)"
  shows "la_solve a b = Inl NonFinite"
proof -
  have "\<not> all_finite a"
    using assms by (auto simp: all_finite_def list_all_length)
  then show ?thesis by (simp add: la_solve_def)
qed

lemma nth_block:
  assumes "is_shape m n M" "r2 \<le> m" "c2 \<le> n" "i < r2 - r1" "j < c2 - c1"
  shows "block M r1 r2 c1 c2 ! i ! j = M ! (r1 + i) ! (c1 + j)"
    and "length (block M r1 r2 c1 c2 ! i) = c2 - c1"
proof -
  have len: "length M = m" using assms(1) by (rule is_shape_length)
  have row: "length (M ! (r1 + i)) = n"
    using assms by (intro is_shape_row [OF assms(1)]) auto
  have nth: "block M r1 r2 c1 c2 ! i = take (c2 - c1) (drop c1 (M ! (r1 + i)))"
    using assms len by (simp add: block_def)
  show "block M r1 r2 c1 c2 ! i ! j = M ! (r1 + i) ! (c1 + j)"
    using assms row by (simp add: nth)
  show "length (block M r1 r2 c1 c2 ! i) = c2 - c1"
    using assms row by (simp add: nth)
qed

text \<open>
  C4, amended. \<^verbatim>\<open>chol_up\<close> does not test the radicand. When the rows before row \<open>k\<close>
  are computed and the radicand of row \<open>k\<close> is negative, \<^verbatim>\<open>np.sqrt\<close> makes \<open>L[k, k]\<close> a
  \<^verbatim>\<open>nan\<close>: if \<open>k\<close> is the last row, \<^verbatim>\<open>chol_up\<close> returns the factor with that \<^verbatim>\<open>nan\<close>;
  otherwise the triangular solve of the next row rejects the entry that is not finite,
  and the call ends with scipy's error for it. In neither case is the outcome
  \<open>NotPositiveDefinite\<close>.
\<close>

theorem chol_up_negative_radicand:
  assumes "is_shape N N A" and "k < N"
    and rows: "for_loop [0..<k] (chol_up_step A) (zeros N N) = Inr L"
    and row: "chol_up_row A k L = Inr L1"
    and rad: "chol_up_radicand A k L1 = Fin r" and neg: "r < 0"
  shows "chol_up A lower
           = (if Suc k = N then Inr (oriented lower N (set2 L1 k k NaN)) else Inl NonFinite)
         \<and> set2 L1 k k NaN ! k ! k = NaN
         \<and> chol_up A lower \<noteq> Inl NotPositiveDefinite"
proof -
  have len: "length A = N" using assms(1) by (rule is_shape_length)
  have shL: "is_shape N N L"
    using chol_up_prefix_shape [OF rows] assms(2) by simp
  have sh1: "is_shape N N L1"
    using shL assms(2) row by (rule chol_up_row_shape)
  define L2 where "L2 = set2 L1 k k NaN"
  have sh2: "is_shape N N L2"
    unfolding L2_def using sh1 by (rule shape_set2)
  have nan: "L2 ! k ! k = NaN"
    unfolding L2_def using nth_set2 [OF sh1 assms(2) assms(2)] by simp
  have step: "chol_up_step A k L = Inr L2"
    using neg by (simp add: chol_up_step_def row rad L2_def)
  have upto: "for_loop [0..<Suc k] (chol_up_step A) (zeros N N) = Inr L2"
    using rows step by (simp add: for_loop_append)
  have res: "for_loop [0..<N] (chol_up_step A) (zeros N N)
             = (if Suc k = N then Inr L2 else Inl NonFinite)"
  proof (cases "Suc k = N")
    case True
    then show ?thesis using upto by simp
  next
    case False
    then have k1: "Suc k < N" using assms(2) by simp
    have "la_solve (block L2 0 (Suc k) 0 (Suc k)) b = Inl NonFinite" for b
    proof (rule la_solve_not_finite [of k _ k])
      show "k < length (block L2 0 (Suc k) 0 (Suc k))"
        using k1 sh2 by (simp add: length_block is_shape_length)
      show "k < length (block L2 0 (Suc k) 0 (Suc k) ! k)"
        using nth_block(2) [OF sh2, of "Suc k" "Suc k" k 0 k 0] k1 by simp
      show "\<not> is_fin (block L2 0 (Suc k) 0 (Suc k) ! k ! k)"
        using nth_block(1) [OF sh2, of "Suc k" "Suc k" k 0 k 0] k1 nan by simp
    qed
    then have next_row: "chol_up_step A (Suc k) L2 = Inl NonFinite"
      by (simp add: chol_up_step_def chol_up_row_def)
    have "[0..<N] = [0..<Suc k] @ Suc k # [Suc (Suc k)..<N]"
      using k1 by (metis less_imp_le_nat upt_add_eq_append upt_conv_Cons le_add_diff_inverse zero_le)
    then have "for_loop [0..<N] (chol_up_step A) (zeros N N) = Inl NonFinite"
      using upto next_row by (simp only: for_loop_append) simp
    then show ?thesis using False by simp
  qed
  have "chol_up A lower
           = (if Suc k = N then Inr (oriented lower N L2) else Inl NonFinite)"
    using assms(1) by (simp add: chol_up_def Let_def len res)
  then show ?thesis
    using nan by (auto simp: L2_def)
qed

theorem chol_up_negative_radicand_witness:
  "is_shape 2 2 [[Fin 1, Fin 2], [Fin 2, Fin 1]] \<and> (1::nat) < 2
   \<and> for_loop [0..<1] (chol_up_step [[Fin 1, Fin 2], [Fin 2, Fin 1]]) (zeros 2 2)
        = Inr [[Fin 1, Fin 0], [Fin 0, Fin 0]]
   \<and> chol_up_row [[Fin 1, Fin 2], [Fin 2, Fin 1]] 1 [[Fin 1, Fin 0], [Fin 0, Fin 0]]
        = Inr [[Fin 1, Fin 0], [Fin 2, Fin 0]]
   \<and> chol_up_radicand [[Fin 1, Fin 2], [Fin 2, Fin 1]] 1 [[Fin 1, Fin 0], [Fin 2, Fin 0]] = Fin (- 3)
   \<and> (- 3 :: real) < 0
   \<and> chol_up [[Fin 1, Fin 2], [Fin 2, Fin 1]] True = Inr [[Fin 1, Fin 0], [Fin 2, NaN]]
   \<and> chol_up [[Fin 1, Fin 2], [Fin 2, Fin 1]] True \<noteq> Inl NotPositiveDefinite"
proof -
  define A where "A = [[Fin 1, Fin 2], [Fin 2, Fin 1]]"
  have sh: "is_shape 2 2 A" by (simp add: is_shape_def A_def)
  have k: "(1::nat) < 2" by simp
  have rows: "for_loop [0..<1] (chol_up_step A) (zeros 2 2) = Inr [[Fin 1, Fin 0], [Fin 0, Fin 0]]"
    by (simp add: A_def factor_eval array_eval numeral_2_eq_2)
  have row: "chol_up_row A 1 [[Fin 1, Fin 0], [Fin 0, Fin 0]] = Inr [[Fin 1, Fin 0], [Fin 2, Fin 0]]"
    by (simp add: A_def factor_eval array_eval)
  have rad: "chol_up_radicand A 1 [[Fin 1, Fin 0], [Fin 2, Fin 0]] = Fin (- 3)"
    by (simp add: A_def factor_eval array_eval)
  have neg: "(- 3 :: real) < 0" by simp
  show ?thesis
    using sh k rows row rad neg chol_up_negative_radicand [OF sh k rows row rad neg, of True]
    unfolding A_def by (simp add: array_eval)
qed

section \<open>Left-looking and supernodal factorization of a positive definite matrix\<close>

lemma mat_eqI:
  assumes "is_shape m n X" "is_shape m n Y"
    and "\<And>i c. i < m \<Longrightarrow> c < n \<Longrightarrow> X ! i ! c = Y ! i ! c"
  shows "X = Y"
proof (rule nth_equalityI)
  show "length X = length Y"
    using assms(1,2) by (simp add: is_shape_length)
  fix i assume "i < length X"
  then have i: "i < m" using assms(1) by (simp add: is_shape_length)
  show "X ! i = Y ! i"
  proof (rule nth_equalityI)
    show "length (X ! i) = length (Y ! i)"
      using is_shape_row [OF assms(1) i] is_shape_row [OF assms(2) i] by simp
    fix c assume "c < length (X ! i)"
    then have "c < n" using is_shape_row [OF assms(1) i] by simp
    then show "X ! i ! c = Y ! i ! c" using assms(3) i by blast
  qed
qed

lemma shape_set_block:
  assumes "is_shape m n M" "r1 + length B \<le> m" "c1 + w \<le> n" "\<forall>b\<in>set B. length b = w"
  shows "is_shape m n (set_block M r1 c1 w B)"
proof -
  have len: "length M = m" using assms(1) by (rule is_shape_length)
  have rows: "\<And>i. i < m \<Longrightarrow> length (M ! i) = n" using assms(1) by (simp add: is_shape_iff)
  show ?thesis
    unfolding is_shape_iff
  proof (intro conjI allI impI)
    show "length (set_block M r1 c1 w B) = m"
      using assms(2) len by (simp add: set_block_def)
    fix i assume i: "i < m"
    consider "i < r1" | "r1 \<le> i" "i < r1 + length B" | "r1 + length B \<le> i" by arith
    then show "length (set_block M r1 c1 w B ! i) = n"
    proof cases
      case 1
      then show ?thesis using i len rows by (simp add: set_block_def nth_append)
    next
      case 2
      then have idx: "i - r1 < length B" by arith
      have "set_block M r1 c1 w B ! i
                 = take c1 (M ! i) @ B ! (i - r1) @ drop (c1 + w) (M ! i)"
        using 2 idx i len assms(2) by (simp add: set_block_def nth_append)
      moreover have "length (B ! (i - r1)) = w"
        using 2 assms(4) by (simp add: less_diff_conv2)
      ultimately show ?thesis
        using rows [OF i] assms(3) by simp
    next
      case 3
      then have "\<not> i < r1" "\<not> i - r1 < length B" by arith+
      then show ?thesis
        using 3 i len rows assms(2) by (simp add: set_block_def nth_append)
    qed
  qed
qed

lemma nth_set_block:
  assumes "is_shape m n M" "r1 + length B \<le> m" "c1 + w \<le> n" "\<forall>b\<in>set B. length b = w"
    and "i < m" "c < n"
  shows "set_block M r1 c1 w B ! i ! c
         = (if r1 \<le> i \<and> i < r1 + length B \<and> c1 \<le> c \<and> c < c1 + w
            then B ! (i - r1) ! (c - c1) else M ! i ! c)"
proof -
  have len: "length M = m" using assms(1) by (rule is_shape_length)
  have row: "length (M ! i) = n" using assms(1,5) by (simp add: is_shape_iff)
  consider "i < r1" | "r1 \<le> i" "i < r1 + length B" | "r1 + length B \<le> i" by arith
  then show ?thesis
  proof cases
    case 1
    then show ?thesis using assms(5) len by (simp add: set_block_def nth_append)
  next
    case 2
    then have idx: "i - r1 < length B" by arith
    have eq: "set_block M r1 c1 w B ! i
               = take c1 (M ! i) @ B ! (i - r1) @ drop (c1 + w) (M ! i)"
      using 2 idx assms(2,5) len by (simp add: set_block_def nth_append)
    have lb: "length (B ! (i - r1)) = w"
      using 2 assms(4) by (simp add: less_diff_conv2)
    consider "c < c1" | "c1 \<le> c" "c < c1 + w" | "c1 + w \<le> c" by arith
    then show ?thesis
    proof cases
      case 1
      then show ?thesis using 2 row assms(3) by (simp add: eq nth_append)
    next
      case 2
      then have "c - c1 < w" by arith
      then show ?thesis
        using 2 \<open>r1 \<le> i\<close> \<open>i < r1 + length B\<close> row assms(3) lb
        by (simp add: eq nth_append)
    next
      case 3
      then have "c - c1 - w + (c1 + w) = c" "\<not> c < c1" "\<not> c - c1 < w" by arith+
      then show ?thesis
        using 3 row assms(3,6) lb by (simp add: eq nth_append)
    qed
  next
    case 3
    then have "\<not> i < r1" "\<not> i - r1 < length B" by arith+
    then show ?thesis
      using 3 assms(2,5) len by (simp add: set_block_def nth_append)
  qed
qed

lemma chol_left_step_entries:
  assumes shA: "is_shape N N A" and shL: "is_shape N N L" and k: "k < N"
  defines "d \<equiv> f_sqrt (f_sub (A ! k ! k) (f_dot (take k (L ! k)) (take k (L ! k))))"
  shows "is_shape N N (chol_left_step A k L)"
    and "\<And>i c. i < N \<Longrightarrow> c < N \<Longrightarrow>
           chol_left_step A k L ! i ! c
           = (if c = k \<and> k \<le> i
              then (if i = k then d
                    else f_div (f_sub (A ! i ! k) (f_dot (take k (L ! i)) (take k (L ! k)))) d)
              else L ! i ! c)"
proof -
  define L1 where "L1 = set2 L k k d"
  define vs where "vs = map (\<lambda>v. f_div v (L1 ! k ! k))
                    (v_sub (col_below A k)
                       (mat_vec (map (take k) (drop (Suc k) L1)) (take k (L1 ! k))))"
  have step: "chol_left_step A k L = set_col_below L1 k vs"
    by (simp only: chol_left_step_def Let_def vs_def L1_def d_def)
  have sh1: "is_shape N N L1"
    unfolding L1_def using shL by (rule shape_set2)
  have lenA: "length A = N" and len1: "length L1 = N" and lenL: "length L = N"
    using shA sh1 shL by (simp_all add: is_shape_length)
  have L1e: "L1 ! i ! c = (if i = k \<and> c = k then d else L ! i ! c)" for i c
    unfolding L1_def using nth_set2 [OF shL k k] by simp
  have tk: "take k (L1 ! i) = take k (L ! i)" if "i < N" for i
  proof (rule nth_equalityI)
    show "length (take k (L1 ! i)) = length (take k (L ! i))"
      using is_shape_row [OF sh1 that] is_shape_row [OF shL that] by simp
    fix c assume "c < length (take k (L1 ! i))"
    then show "take k (L1 ! i) ! c = take k (L ! i) ! c"
      by (simp add: L1e)
  qed
  have lvs: "length vs = N - Suc k"
    by (simp add: vs_def v_sub_def mat_vec_def length_col_below lenA len1)
  show "is_shape N N (chol_left_step A k L)"
    unfolding step using sh1 lvs by (rule shape_set_col_below)
  have vse: "vs ! (i - Suc k)
             = f_div (f_sub (A ! i ! k) (f_dot (take k (L ! i)) (take k (L ! k)))) d"
    if "k < i" "i < N" for i
  proof -
    have idx: "i - Suc k < N - Suc k" and i': "Suc k + (i - Suc k) = i"
      using that by arith+
    have a: "col_below A k ! (i - Suc k) = A ! i ! k"
      using nth_col_below [of k "i - Suc k" A] that i' by (simp add: lenA)
    have b: "mat_vec (map (take k) (drop (Suc k) L1)) (take k (L1 ! k)) ! (i - Suc k)
             = f_dot (take k (L ! i)) (take k (L ! k))"
      using idx i' that k by (simp add: mat_vec_def len1 tk del: drop_Suc)
    show ?thesis
      unfolding vs_def v_sub_def using idx a b
      by (simp add: mat_vec_def length_col_below lenA len1 L1e del: drop_Suc)
  qed
  show "chol_left_step A k L ! i ! c
           = (if c = k \<and> k \<le> i
              then (if i = k then d
                    else f_div (f_sub (A ! i ! k) (f_dot (take k (L ! i)) (take k (L ! k)))) d)
              else L ! i ! c)" if "i < N" "c < N" for i c
  proof (cases "k < i \<and> c = k")
    case True
    then show ?thesis
      unfolding step using nth_set_col_below [OF sh1 lvs that(1) k] vse [of i] that by simp
  next
    case False
    then have "chol_left_step A k L ! i ! c = L1 ! i ! c"
      unfolding step using nth_set_col_below [OF sh1 lvs that(1) k] by auto
    then show ?thesis using False by (auto simp: L1e)
  qed
qed

lemma cumsum0_ones: "j \<le> N \<Longrightarrow> cumsum0 (replicate N 1) ! j = j"
proof -
  assume j: "j \<le> N"
  have "[0..<Suc N] ! j = j"
    using j by (simp del: upt_Suc)
  then have "cumsum0 (replicate N 1) ! j = nat (sum_list (take j (replicate N (1::int))))"
    using j unfolding cumsum0_def by (subst nth_map) (simp_all del: upt_Suc)
  also have "take j (replicate N (1::int)) = replicate j 1"
    using j by (simp add: min_def)
  finally show ?thesis by (simp add: sum_list_replicate)
qed

lemma take1_drop: "j < length xs \<Longrightarrow> take (Suc 0) (drop j xs) = [xs ! j]"
  by (metis Cons_nth_drop_Suc take0 take_Suc_Cons)

lemma block_1x1:
  assumes "is_shape N N M" "j < N"
  shows "block M j (Suc j) j (Suc j) = [[M ! j ! j]]"
  using assms by (simp add: block_def take1_drop is_shape_iff)

lemma block_row_left:
  assumes "is_shape N N M" "j < N"
  shows "block M j (Suc j) 0 j = [take j (M ! j)]"
  using assms by (simp add: block_def take1_drop is_shape_iff)

lemma la_cholesky_1x1:
  assumes "0 < x"
  shows "la_cholesky [[Fin x]] = Inr [[Fin (sqrt x)]]"
  using assms by (simp add: la_cholesky_def all_finite_def potrf_row_def f_dot_def f_sub_def)

lemma block_below_rows:
  assumes "is_shape N N M" "j < N" "c2 \<le> N"
  shows "block M (Suc j) N c1 c2 = map (\<lambda>i. take (c2 - c1) (drop c1 (M ! (Suc j + i)))) [0..<N - Suc j]"
proof (rule nth_equalityI)
  have len: "length M = N" using assms(1) by (rule is_shape_length)
  show "length (block M (Suc j) N c1 c2)
        = length (map (\<lambda>i. take (c2 - c1) (drop c1 (M ! (Suc j + i)))) [0..<N - Suc j])"
    by (simp add: block_def len)
  fix i assume "i < length (block M (Suc j) N c1 c2)"
  then have i: "i < N - Suc j" by (simp add: block_def len)
  then show "block M (Suc j) N c1 c2 ! i
        = map (\<lambda>i. take (c2 - c1) (drop c1 (M ! (Suc j + i)))) [0..<N - Suc j] ! i"
    using len by (simp add: block_def del: drop_Suc)
qed

lemma map2_map_map: "map2 f (map g xs) (map h xs) = map (\<lambda>x. f (g x) (h x)) xs"
  by (induction xs) auto

lemma chol_super_step_ones:
  assumes shA: "is_shape N N A" and shL: "is_shape N N L" and j: "j < N"
    and rad: "f_sub (A ! j ! j) (f_dot (take j (L ! j)) (take j (L ! j))) = Fin x"
    and pos: "0 < x"
  shows "chol_super_step A (cumsum0 (replicate N 1)) j L = Inr (chol_left_step A j L)"
proof -
  define u where "u = Fin (sqrt x)"
  define L1 where "L1 = set2 L j j u"
  define m where "m = N - Suc j"
  define q where "q = take j (L1 ! j)"
  define X where "X = map (\<lambda>i. [f_sub (A ! (Suc j + i) ! j) (f_dot (take j (L1 ! (Suc j + i))) q)]) [0..<m]"
  define V where "V = map (\<lambda>i. map (\<lambda>c. f_div (X ! (if m = 1 then 0 else i) ! 0) u) [0..<Suc 0]) [0..<m]"
  define B where "B = map (\<lambda>i. map (\<lambda>c. V ! (if m = 1 then 0 else i) ! 0) [0..<Suc 0]) [0..<m]"
  define L2 where "L2 = set_block L1 (Suc j) j 1 B"
  have lenA: "length A = N" and lenL: "length L = N"
    using shA shL by (simp_all add: is_shape_length)
  have ss: "cumsum0 (replicate N 1) ! j = j" "cumsum0 (replicate N 1) ! Suc j = Suc j"
    using j by (simp_all add: cumsum0_ones)
  have sh1: "is_shape N N L1"
    unfolding L1_def using shL by (rule shape_set2)
  have d0: "m_sub (block A j (Suc j) j (Suc j))
              (mat_mul_T (block L j (Suc j) 0 j) (block L j (Suc j) 0 j)) = [[Fin x]]"
    using rad by (simp add: block_1x1 [OF shA j] block_row_left [OF shL j] m_sub_def
        mat_mul_T_def v_sub_def)
  have tr: "transp (Suc 0) (Suc 0) [[u]] = [[u]]"
    by (simp add: transp_def)
  have s1: "set_block L j j (Suc 0) [[u]] = L1"
  proof (rule mat_eqI [of N N])
    show "is_shape N N (set_block L j j (Suc 0) [[u]])"
      using shL j by (intro shape_set_block) auto
    show "is_shape N N L1" by (rule sh1)
    fix i c assume "i < N" "c < N"
    then show "set_block L j j (Suc 0) [[u]] ! i ! c = L1 ! i ! c"
      using nth_set_block [OF shL, of j "[[u]]" j "Suc 0" i c] j
        nth_set2 [OF shL j j, of u i c]
      by (auto simp: L1_def)
  qed
  have L1e: "L1 ! i ! c = (if i = j \<and> c = j then u else L ! i ! c)" for i c
    unfolding L1_def using nth_set2 [OF shL j j] by simp
  have bk: "block L1 j (Suc j) j (Suc j) = [[u]]"
    unfolding block_1x1 [OF sh1 j] by (simp add: L1e)
  have xa: "block A (Suc j) N j (Suc j) = map (\<lambda>i. [A ! (Suc j + i) ! j]) [0..<m]"
  proof -
    have "block A (Suc j) N j (Suc j)
          = map (\<lambda>i. take (Suc j - j) (drop j (A ! (Suc j + i)))) [0..<m]"
      unfolding m_def using j by (intro block_below_rows [OF shA j]) simp
    also have "\<dots> = map (\<lambda>i. [A ! (Suc j + i) ! j]) [0..<m]"
    proof (rule map_cong [OF refl])
      fix i assume "i \<in> set [0..<m]"
      then have "Suc j + i < N" by (simp add: m_def)
      then show "take (Suc j - j) (drop j (A ! (Suc j + i))) = [A ! (Suc j + i) ! j]"
        using j is_shape_row [OF shA, of "Suc j + i"] by (simp add: take1_drop)
    qed
    finally show ?thesis .
  qed
  have xl: "block L1 (Suc j) N 0 j = map (\<lambda>i. take j (L1 ! (Suc j + i))) [0..<m]"
    using block_below_rows [OF sh1 j, of j 0] j by (simp add: m_def)
  have xq: "block L1 j (Suc j) 0 j = [q]"
    by (simp add: block_row_left [OF sh1 j] q_def)
  have xx: "m_sub (block A (Suc j) N j (Suc j))
              (mat_mul_T (block L1 (Suc j) N 0 j) (block L1 j (Suc j) 0 j)) = X"
    unfolding xa xl xq
    by (simp add: mat_mul_T_def m_sub_def map2_map_map v_sub_def X_def comp_def)
  have lenX: "length X = m" by (simp add: X_def)
  have bc: "bc_div (N - Suc j, Suc 0) X (Suc 0, Suc 0) [[u]] = Inr ((m, Suc 0), V)"
    by (simp add: bc_div_def bc_dim_def V_def m_def)
  have asg: "assign_bc L1 (Suc j) j (N - Suc j, Suc 0) ((m, Suc 0), V) = Inr L2"
    by (simp add: assign_bc_def L2_def B_def m_def)
  have step: "chol_super_step A (cumsum0 (replicate N 1)) j L = Inr L2"
    using pos
    by (simp add: chol_super_step_def Let_def ss lenA d0 la_cholesky_1x1 tr s1 bk xx bc asg
        flip: u_def)
  have lenB: "length B = m" and rowsB: "\<forall>b\<in>set B. length b = Suc 0"
    by (auto simp: B_def)
  have shB: "Suc j + length B \<le> N" "j + Suc 0 \<le> N"
    using j by (simp_all add: lenB m_def)
  have sh2: "is_shape N N L2"
    unfolding L2_def using sh1 shB rowsB by (intro shape_set_block) auto
  have Be: "B ! (i - Suc j) ! 0
            = f_div (f_sub (A ! i ! j) (f_dot (take j (L1 ! i)) q)) u" if "j < i" "i < N" for i
  proof -
    have idx: "i - Suc j < m" and i': "Suc j + (i - Suc j) = i"
      using that by (simp_all add: m_def)
    have one: "(if m = 1 then 0 else i - Suc j) = i - Suc j"
      using idx by auto
    have "B ! (i - Suc j) ! 0 = V ! (i - Suc j) ! 0"
      using idx one by (simp add: B_def)
    also have "\<dots> = f_div (X ! (i - Suc j) ! 0) u"
      using idx one by (simp add: V_def)
    also have "X ! (i - Suc j) ! 0 = f_sub (A ! i ! j) (f_dot (take j (L1 ! i)) q)"
      using idx i' by (simp add: X_def)
    finally show ?thesis .
  qed
  have tk: "take j (L1 ! i) = take j (L ! i)" if "i < N" for i
  proof (rule nth_equalityI)
    show "length (take j (L1 ! i)) = length (take j (L ! i))"
      using is_shape_row [OF sh1 that] is_shape_row [OF shL that] by simp
    fix c assume "c < length (take j (L1 ! i))"
    then show "take j (L1 ! i) ! c = take j (L ! i) ! c"
      by (simp add: L1e)
  qed
  have du: "f_sqrt (f_sub (A ! j ! j) (f_dot (take j (L ! j)) (take j (L ! j)))) = u"
    using pos by (simp add: rad u_def)
  have "L2 = chol_left_step A j L"
  proof (rule mat_eqI [of N N])
    show "is_shape N N L2" by (rule sh2)
    show "is_shape N N (chol_left_step A j L)"
      using shA shL j by (rule chol_left_step_entries(1))
    fix i c assume ic: "i < N" "c < N"
    have l: "L2 ! i ! c = (if Suc j \<le> i \<and> c = j then B ! (i - Suc j) ! 0 else L1 ! i ! c)"
      unfolding L2_def
      using nth_set_block [OF sh1 shB rowsB ic] ic by (auto simp: lenB m_def)
    show "L2 ! i ! c = chol_left_step A j L ! i ! c"
      unfolding chol_left_step_entries(2) [OF shA shL j ic] du l
      using Be [of i] ic j by (auto simp: L1e q_def tk)
  qed
  then show ?thesis by (simp add: step)
qed

lemma foldl_f_add_Fin: "foldl f_add (Fin a) (map Fin zs) = Fin (a + sum_list zs)"
  by (induction zs arbitrary: a) (simp_all add: add.assoc)

lemma f_dot_fvec: "f_dot (fvec x) (fvec y) = Fin (sum_list (map2 (*) x y))"
proof -
  have "map2 f_mul (map Fin x) (map Fin y) = map Fin (map2 (*) x y)"
    by (auto simp: zip_map_map)
  then show ?thesis
    using foldl_f_add_Fin [of 0 "map2 (*) x y"] by (simp add: f_dot_def fvec_def)
qed

lemma sum_list_map2_take:
  fixes r q :: "real list"
  assumes "k \<le> length r" "k \<le> length q"
  shows "sum_list (map2 (*) (take k r) (take k q)) = (\<Sum>c<k. r ! c * q ! c)"
proof -
  have "sum_list (map2 (*) (take k r) (take k q))
        = (\<Sum>c = 0..<k. map2 (*) (take k r) (take k q) ! c)"
    using assms by (simp add: sum_list_sum_nth min_def)
  also have "\<dots> = (\<Sum>c = 0..<k. r ! c * q ! c)"
    using assms by (intro sum.cong) auto
  finally show ?thesis by (simp add: atLeast0LessThan)
qed

lemma f_dot_fmat_rows:
  assumes "is_shape N N L" "i < N" "j < N" "k \<le> N"
  shows "f_dot (take k (fmat L ! i)) (take k (fmat L ! j)) = Fin (\<Sum>c<k. L ! i ! c * L ! j ! c)"
proof -
  have len: "length L = N" using assms(1) by (rule is_shape_length)
  have "take k (fmat L ! i) = fvec (take k (L ! i))" "take k (fmat L ! j) = fvec (take k (L ! j))"
    using assms(2,3) len by (simp_all add: fmat_def fvec_def take_map)
  then show ?thesis
    using sum_list_map2_take [of k "L ! i" "L ! j"] is_shape_row [OF assms(1)] assms(2-4)
    by (simp add: f_dot_fvec)
qed

lemma left_step_real_shape: "length A = N \<Longrightarrow> is_shape N N (left_step_real A k L)"
  by (simp add: left_step_real_def is_shape_iff Let_def)

lemma left_step_real_nth:
  assumes "length A = N" "i < N" "c < N"
  shows "left_step_real A k L ! i ! c
         = (if c = k \<and> k \<le> i
            then (if i = k then sqrt (A ! k ! k - (\<Sum>c<k. L ! k ! c * L ! k ! c))
                  else (A ! i ! k - (\<Sum>d<k. L ! i ! d * L ! k ! d))
                       / sqrt (A ! k ! k - (\<Sum>c<k. L ! k ! c * L ! k ! c)))
            else L ! i ! c)"
  using assms by (simp add: left_step_real_def Let_def)

lemma chol_left_step_sim:
  assumes shA: "is_shape N N A" and shL: "is_shape N N L" and k: "k < N"
    and pos: "0 < A ! k ! k - (\<Sum>c<k. L ! k ! c * L ! k ! c)"
  shows "f_sub (fmat A ! k ! k) (f_dot (take k (fmat L ! k)) (take k (fmat L ! k)))
         = Fin (A ! k ! k - (\<Sum>c<k. L ! k ! c * L ! k ! c))"
    and "chol_left_step (fmat A) k (fmat L) = fmat (left_step_real A k L)"
proof -
  define x where "x = A ! k ! k - (\<Sum>c<k. L ! k ! c * L ! k ! c)"
  have lenA: "length A = N" using shA by (rule is_shape_length)
  have kN: "k \<le> N" using k by simp
  show rad: "f_sub (fmat A ! k ! k) (f_dot (take k (fmat L ! k)) (take k (fmat L ! k))) = Fin x"
    using k by (simp add: f_dot_fmat_rows [OF shL k k kN] nth_fmat [OF shA] f_sub_def x_def)
  have sx: "0 < sqrt x" using pos by (simp add: x_def)
  show "chol_left_step (fmat A) k (fmat L) = fmat (left_step_real A k L)"
  proof (rule mat_eqI [of N N])
    show "is_shape N N (chol_left_step (fmat A) k (fmat L))"
      using shA shL k by (intro chol_left_step_entries(1)) simp_all
    show "is_shape N N (fmat (left_step_real A k L))"
      using lenA by (simp add: left_step_real_shape)
    fix i c assume ic: "i < N" "c < N"
    have shA': "is_shape N N (fmat A)" and shL': "is_shape N N (fmat L)"
      using shA shL by simp_all
    have r: "fmat (left_step_real A k L) ! i ! c = Fin (left_step_real A k L ! i ! c)"
      using ic lenA by (intro nth_fmat [of N N]) (simp_all add: left_step_real_shape)
    show "chol_left_step (fmat A) k (fmat L) ! i ! c = fmat (left_step_real A k L) ! i ! c"
      unfolding chol_left_step_entries(2) [OF shA' shL' k ic] rad r
        left_step_real_nth [OF lenA ic]
      using ic k sx pos
      by (auto simp: f_dot_fmat_rows [OF shL _ _ kN] nth_fmat [OF shA] nth_fmat [OF shL]
          f_sub_def simp flip: x_def)
  qed
qed

lemma back_subst_exists:
  fixes l :: "nat \<Rightarrow> nat \<Rightarrow> real"
  assumes diag: "\<And>c. c < k \<Longrightarrow> l c c \<noteq> 0"
    and upper: "\<And>i c. i < c \<Longrightarrow> c < k \<Longrightarrow> l i c = 0"
  shows "\<exists>x. x k = 1 \<and> (\<forall>i>k. x i = 0) \<and> (\<forall>c<k. (\<Sum>i<Suc k. x i * l i c) = 0)"
proof -
  have "m \<le> k \<Longrightarrow> \<exists>x. x k = 1 \<and> (\<forall>i>k. x i = 0)
          \<and> (\<forall>c. k - m \<le> c \<and> c < k \<longrightarrow> (\<Sum>i<Suc k. x i * l i c) = 0)" for m
  proof (induction m)
    case 0
    show ?case
      by (rule exI [of _ "\<lambda>i. if i = k then 1 else 0"]) auto
  next
    case (Suc m)
    then obtain x where xk: "x k = 1" and xz: "\<forall>i>k. x i = 0"
      and xs: "\<forall>c. k - m \<le> c \<and> c < k \<longrightarrow> (\<Sum>i<Suc k. x i * l i c) = 0"
      by auto
    define c0 where "c0 = k - Suc m"
    have c0: "c0 < k" "Suc c0 = k - m" using Suc.prems by (simp_all add: c0_def)
    define t where "t = (\<Sum>i\<in>{..<Suc k} - {c0}. x i * l i c0)"
    define y where "y = x(c0 := - t / l c0 c0)"
    have fin: "finite {..<Suc k}" and mem: "c0 \<in> {..<Suc k}" using c0 by auto
    have yk: "y k = 1" using xk c0 by (simp add: y_def)
    have yz: "\<forall>i>k. y i = 0" using xz c0 by (simp add: y_def)
    have ys: "(\<Sum>i<Suc k. y i * l i c) = 0" if c: "k - Suc m \<le> c" "c < k" for c
    proof (cases "c = c0")
      case True
      have "(\<Sum>i<Suc k. y i * l i c0) = y c0 * l c0 c0 + (\<Sum>i\<in>{..<Suc k} - {c0}. y i * l i c0)"
        using sum.remove [OF fin mem, of "\<lambda>i. y i * l i c0"] by simp
      also have "(\<Sum>i\<in>{..<Suc k} - {c0}. y i * l i c0) = t"
        unfolding t_def by (rule sum.cong) (auto simp: y_def)
      also have "y c0 * l c0 c0 = - t"
        using diag [OF c0(1)] by (simp add: y_def)
      finally show ?thesis using True by simp
    next
      case False
      then have lt: "c0 < c" using c by (simp add: c0_def)
      have z: "l c0 c = 0" using upper [OF lt c(2)] .
      have "(\<Sum>i<Suc k. y i * l i c) = (\<Sum>i<Suc k. x i * l i c)"
        by (rule sum.cong) (auto simp: y_def z)
      also have "\<dots> = 0"
        using xs lt c0(2) c(2) by auto
      finally show ?thesis .
    qed
    show ?case
      using yk yz ys by blast
  qed
  from this [of k] show ?thesis by auto
qed

lemma quadratic_form_factored:
  fixes x :: "nat \<Rightarrow> real" and l :: "nat \<Rightarrow> nat \<Rightarrow> real"
  shows "(\<Sum>i<n. \<Sum>j<n. x i * (\<Sum>d<k. l i d * l j d) * x j)
         = (\<Sum>d<k. (\<Sum>i<n. x i * l i d) * (\<Sum>j<n. x j * l j d))"
proof -
  have "(\<Sum>d<k. (\<Sum>i<n. x i * l i d) * (\<Sum>j<n. x j * l j d))
        = (\<Sum>d<k. \<Sum>i<n. \<Sum>j<n. (x i * l i d) * (x j * l j d))"
    by (simp add: sum_product)
  also have "\<dots> = (\<Sum>i<n. \<Sum>d<k. \<Sum>j<n. (x i * l i d) * (x j * l j d))"
    by (rule sum.swap)
  also have "\<dots> = (\<Sum>i<n. \<Sum>j<n. \<Sum>d<k. (x i * l i d) * (x j * l j d))"
    by (intro sum.cong refl sum.swap)
  also have "\<dots> = (\<Sum>i<n. \<Sum>j<n. x i * (\<Sum>d<k. l i d * l j d) * x j)"
    by (intro sum.cong refl) (simp add: sum_distrib_left sum_distrib_right mult_ac)
  finally show ?thesis by simp
qed

lemma spd_radicand_pos:
  assumes spd: "spd A" and len: "length A = N" and inv: "left_inv A k L" and k: "k < N"
  shows "0 < A ! k ! k - (\<Sum>c<k. L ! k ! c * L ! k ! c)"
proof -
  define a where "a i j = A ! i ! j" for i j
  define l where "l i c = L ! i ! c" for i c
  define r where "r = a k k - (\<Sum>d<k. l k d * l k d)"
  from inv have zero: "\<And>i c. i < N \<Longrightarrow> c < N \<Longrightarrow> k \<le> c \<or> i < c \<Longrightarrow> l i c = 0"
    and diag: "\<And>c. c < k \<Longrightarrow> 0 < l c c"
    and col: "\<And>c i. c < k \<Longrightarrow> i < N \<Longrightarrow> c \<le> i \<Longrightarrow> (\<Sum>d<Suc c. l i d * l c d) = a i c"
    by (auto simp: left_inv_def len Let_def l_def a_def)
  from spd have sym: "\<And>i j. i < N \<Longrightarrow> j < N \<Longrightarrow> a i j = a j i"
    and pd: "\<And>x :: nat \<Rightarrow> real. \<exists>i<N. x i \<noteq> 0 \<Longrightarrow> 0 < (\<Sum>i<N. \<Sum>j<N. x i * a i j * x j)"
    by (auto simp: spd_def len Let_def a_def)
  have low: "a i j = (\<Sum>d<k. l i d * l j d)" if "j < k" "j \<le> i" "i < N" for i j
  proof -
    have "(\<Sum>d<Suc j. l i d * l j d) = (\<Sum>d<k. l i d * l j d)"
    proof (rule sum.mono_neutral_left)
      show "finite {..<k}" by simp
      show "{..<Suc j} \<subseteq> {..<k}" using that by auto
      show "\<forall>d\<in>{..<k} - {..<Suc j}. l i d * l j d = 0"
        using that k zero [of j] by auto
    qed
    then show ?thesis using col [OF that(1,3,2)] by simp
  qed
  have ent: "a i j = (\<Sum>d<k. l i d * l j d) + (if i = k \<and> j = k then r else 0)"
    if ij: "i < Suc k" "j < Suc k" for i j
  proof -
    consider "i = k" "j = k" | "j < k" "j \<le> i" | "i < k" "i < j"
      using ij by arith
    then show ?thesis
    proof cases
      case 1
      then show ?thesis by (simp add: r_def)
    next
      case 2
      then show ?thesis using low [of j i] ij k by simp
    next
      case 3
      then have "a j i = (\<Sum>d<k. l j d * l i d)"
        using low [of i j] ij k by simp
      then show ?thesis
        using 3 sym [of i j] ij k by (simp add: mult.commute)
    qed
  qed
  obtain x where xk: "x k = 1" and xz: "\<forall>i>k. x i = 0"
    and xs: "\<forall>c<k. (\<Sum>i<Suc k. x i * l i c) = 0"
  proof -
    have "\<exists>x. x k = 1 \<and> (\<forall>i>k. x i = 0) \<and> (\<forall>c<k. (\<Sum>i<Suc k. x i * l i c) = 0)"
    proof (rule back_subst_exists)
      show "l c c \<noteq> 0" if "c < k" for c using diag [OF that] by simp
      show "l i c = 0" if "i < c" "c < k" for i c
        using zero [of i c] that k by simp
    qed
    then show ?thesis using that by blast
  qed
  have "(\<Sum>i<N. \<Sum>j<N. x i * a i j * x j) = (\<Sum>i<Suc k. \<Sum>j<N. x i * a i j * x j)"
  proof (rule sum.mono_neutral_right)
    show "finite {..<N}" by simp
    show "{..<Suc k} \<subseteq> {..<N}" using k by auto
    show "\<forall>i\<in>{..<N} - {..<Suc k}. (\<Sum>j<N. x i * a i j * x j) = 0"
      using xz by auto
  qed
  also have "\<dots> = (\<Sum>i<Suc k. \<Sum>j<Suc k. x i * a i j * x j)"
  proof (rule sum.cong [OF refl], rule sum.mono_neutral_right)
    show "finite {..<N}" by simp
    show "{..<Suc k} \<subseteq> {..<N}" using k by auto
    fix i
    show "\<forall>j\<in>{..<N} - {..<Suc k}. x i * a i j * x j = 0"
      using xz by auto
  qed
  also have "\<dots> = (\<Sum>i<Suc k. \<Sum>j<Suc k.
                      x i * (\<Sum>d<k. l i d * l j d) * x j
                      + (if i = k \<and> j = k then x i * r * x j else 0))"
    by (intro sum.cong refl) (simp add: ent algebra_simps)
  also have "\<dots> = (\<Sum>i<Suc k. \<Sum>j<Suc k. x i * (\<Sum>d<k. l i d * l j d) * x j)
                  + (\<Sum>i<Suc k. \<Sum>j<Suc k. if i = k \<and> j = k then x i * r * x j else 0)"
    by (simp add: sum.distrib)
  also have "(\<Sum>i<Suc k. \<Sum>j<Suc k. x i * (\<Sum>d<k. l i d * l j d) * x j)
             = (\<Sum>d<k. (\<Sum>i<Suc k. x i * l i d) * (\<Sum>j<Suc k. x j * l j d))"
    by (rule quadratic_form_factored)
  also have "\<dots> = 0"
    using xs by simp
  also have "(\<Sum>i<Suc k. \<Sum>j<Suc k. if i = k \<and> j = k then x i * r * x j else 0) = r"
  proof -
    have "(\<Sum>i<Suc k. \<Sum>j<Suc k. if i = k \<and> j = k then x i * r * x j else 0)
          = (\<Sum>i<Suc k. if i = k then x k * r * x k else 0)"
      by (intro sum.cong refl) (auto simp: sum.delta')
    also have "\<dots> = x k * r * x k"
      by (simp add: sum.delta')
    finally show ?thesis by (simp add: xk)
  qed
  finally have "(\<Sum>i<N. \<Sum>j<N. x i * a i j * x j) = r" by simp
  moreover have "0 < (\<Sum>i<N. \<Sum>j<N. x i * a i j * x j)"
    using xk k by (intro pd) (auto intro: exI [of _ k])
  ultimately show ?thesis
    by (simp add: r_def a_def l_def)
qed

lemma left_inv_zeros: "is_shape N N A \<Longrightarrow> left_inv A 0 (map (map (\<lambda>_. 0)) A)"
  by (auto simp: left_inv_def Let_def is_shape_iff)

lemma fmat_zeros: "is_shape N N A \<Longrightarrow> zeros N N = fmat (map (map (\<lambda>_. 0)) A)"
  by (rule mat_eqI [of N N]) (auto simp: is_shape_iff zeros_def fmat_def)

lemma left_step_real_inv:
  assumes spd: "spd A" and len: "length A = N" and inv: "left_inv A k L" and k: "k < N"
  shows "left_inv A (Suc k) (left_step_real A k L)"
proof -
  define x where "x = A ! k ! k - (\<Sum>c<k. L ! k ! c * L ! k ! c)"
  define L' where "L' = left_step_real A k L"
  have pos: "0 < x"
    unfolding x_def using spd len inv k by (rule spd_radicand_pos)
  then have sx: "0 < sqrt x" by simp
  from inv have zero: "\<And>i c. i < N \<Longrightarrow> c < N \<Longrightarrow> k \<le> c \<or> i < c \<Longrightarrow> L ! i ! c = 0"
    and diag: "\<And>c. c < k \<Longrightarrow> 0 < L ! c ! c"
    and col: "\<And>c i. c < k \<Longrightarrow> i < N \<Longrightarrow> c \<le> i \<Longrightarrow> (\<Sum>d<Suc c. L ! i ! d * L ! c ! d) = A ! i ! c"
    by (auto simp: left_inv_def len Let_def)
  have ent: "L' ! i ! c = (if c = k \<and> k \<le> i
            then (if i = k then sqrt x else (A ! i ! k - (\<Sum>d<k. L ! i ! d * L ! k ! d)) / sqrt x)
            else L ! i ! c)" if "i < N" "c < N" for i c
    unfolding L'_def x_def using len that by (rule left_step_real_nth)
  have sh: "is_shape N N L'"
    unfolding L'_def using len by (rule left_step_real_shape)
  have zero': "L' ! i ! c = 0" if "i < N" "c < N" "Suc k \<le> c \<or> i < c" for i c
    using that zero [of i c] by (auto simp: ent)
  have diag': "0 < L' ! c ! c" if "c < Suc k" for c
    using that k sx diag [of c] by (auto simp: ent)
  have col': "(\<Sum>d<Suc c. L' ! i ! d * L' ! c ! d) = A ! i ! c"
    if c: "c < Suc k" and i: "i < N" "c \<le> i" for c i
  proof (cases "c = k")
    case False
    then have ck: "c < k" using c by simp
    have "(\<Sum>d<Suc c. L' ! i ! d * L' ! c ! d) = (\<Sum>d<Suc c. L ! i ! d * L ! c ! d)"
      by (rule sum.cong) (use ck i k in \<open>auto simp: ent\<close>)
    then show ?thesis using col [OF ck i] by simp
  next
    case True
    have "(\<Sum>d<k. L' ! i ! d * L' ! k ! d) = (\<Sum>d<k. L ! i ! d * L ! k ! d)"
      by (rule sum.cong) (use i k in \<open>auto simp: ent\<close>)
    then have "(\<Sum>d<Suc k. L' ! i ! d * L' ! k ! d)
               = (\<Sum>d<k. L ! i ! d * L ! k ! d) + L' ! i ! k * L' ! k ! k"
      by simp
    also have "L' ! i ! k * L' ! k ! k = A ! i ! k - (\<Sum>d<k. L ! i ! d * L ! k ! d)"
    proof (cases "i = k")
      case True
      then show ?thesis using k pos by (simp add: ent x_def)
    next
      case False
      then show ?thesis using i True k sx by (simp add: ent)
    qed
    finally show ?thesis using True by simp
  qed
  show ?thesis
    unfolding left_inv_def Let_def len L'_def [symmetric]
    using sh zero' diag' col' by blast
qed

lemma left_inv_final:
  assumes spd: "spd A" and len: "length A = N" and inv: "left_inv A N L"
  shows "is_shape N N L" "lower_tri L" "pos_diag L"
    "\<And>i c. i < N \<Longrightarrow> c < N \<Longrightarrow> gram L i c = A ! i ! c"
proof -
  from inv show sh: "is_shape N N L" by (simp add: left_inv_def len Let_def)
  then have lenL: "length L = N" by (rule is_shape_length)
  from inv show tri: "lower_tri L" and "pos_diag L"
    by (auto simp: left_inv_def len Let_def lower_tri_def pos_diag_def lenL)
  from inv have col: "\<And>c i. c < N \<Longrightarrow> i < N \<Longrightarrow> c \<le> i \<Longrightarrow> (\<Sum>d<Suc c. L ! i ! d * L ! c ! d) = A ! i ! c"
    by (auto simp: left_inv_def len Let_def)
  from spd have sym: "\<And>i j. i < N \<Longrightarrow> j < N \<Longrightarrow> A ! i ! j = A ! j ! i"
    by (auto simp: spd_def len Let_def)
  have low: "gram L i c = A ! i ! c" if "c \<le> i" "i < N" for i c
    using gram_lower_tri [OF tri lenL, of c i] col [of c i] that by simp
  show "gram L i c = A ! i ! c" if "i < N" "c < N" for i c
  proof (cases "c \<le> i")
    case True
    then show ?thesis using low that by simp
  next
    case False
    then have "gram L c i = A ! c ! i" using low [of i c] that by simp
    moreover have "gram L i c = gram L c i" by (simp add: gram_def mult.commute)
    ultimately show ?thesis using sym that by simp
  qed
qed






section \<open>Update followed by downdate\<close>

text \<open>
  C9. Updating a lower-triangular \<open>L\<close> with positive diagonal by \<open>w\<close> and downdating the
  result by the same \<open>w\<close> gives \<open>L\<close> back, provided no column that the downdate reaches
  has \<open>\<alpha>\<^sup>2 \<ge> \<beta>\<^sup>2\<close>.
\<close>

theorem update_downdate_roundtrip:
  assumes "is_shape N N L" and "length w = N" and "lower_tri L" and "pos_diag L"
    and up: "chol_update (fmat L) (fvec w) = Inr (L1, w1)"
    and steps: "\<forall>j<N. \<forall>st. downdate_prefix j L1 (fvec w) = Inr st \<longrightarrow> \<not> downdate_guard j st"
  shows "\<exists>w2. chol_downdate L1 (fvec w) = Inr (fmat L, w2)"
proof -
  from chol_update_real [OF assms(1-4)] up obtain L1r where L1: "L1 = fmat L1r"
    and sh1: "is_shape N N L1r" and tri1: "lower_tri L1r" and pos1: "pos_diag L1r"
    and g1: "\<forall>i<N. \<forall>k<N. gram L1r i k = gram L i k + w ! i * w ! k"
    by auto
  have ok: "chol_downdate (fmat L1r) (fvec w) \<noteq> Inl NotPositiveDefinite"
    using chol_downdate_fails_iff [of N "fmat L1r" "fvec w" NotPositiveDefinite] sh1 assms(2) steps
    by (auto simp: L1)
  from chol_downdate_cases [OF sh1 assms(2) tri1 pos1] ok obtain R where
    R: "chol_downdate (fmat L1r) (fvec w) = Inr R"
    by auto
  from chol_downdate_real [OF sh1 assms(2) tri1 pos1 R] obtain L2 w2 where
    R2: "R = (fmat L2, fvec w2)" and sh2: "is_shape N N L2"
    and tri2: "lower_tri L2" and pos2: "pos_diag L2"
    and g2: "\<forall>i<N. \<forall>k<N. gram L2 i k = gram L1r i k - w ! i * w ! k"
    by blast
  have "L2 = L"
    using sh2 assms(1) tri2 assms(3) pos2 assms(4)
  proof (rule cholesky_unique)
    fix i k assume "i < N" "k < N"
    then show "gram L2 i k = gram L i k" using g1 g2 by simp
  qed
  then show ?thesis using R R2 by (simp add: L1)
qed

theorem update_downdate_roundtrip_witness:
  "is_shape 2 2 [[4, 0], [4, 1 :: real]] \<and> length [3, 6 :: real] = 2
   \<and> lower_tri [[4, 0], [4, 1]] \<and> pos_diag [[4, 0], [4, 1]]
   \<and> chol_update (fmat [[4, 0], [4, 1]]) (fvec [3, 6])
        = Inr (fmat [[5, 0], [34 / 5, 13 / 5]], fvec [3 / 4, 3])
   \<and> downdate_prefix 0 (fmat [[5, 0], [34 / 5, 13 / 5]]) (fvec [3, 6])
        = Inr (fmat [[5, 0], [34 / 5, 13 / 5]], fvec [3, 6], Fin 1)
   \<and> \<not> downdate_guard 0 (fmat [[5, 0], [34 / 5, 13 / 5]], fvec [3, 6], Fin 1)
   \<and> downdate_prefix 1 (fmat [[5, 0], [34 / 5, 13 / 5]]) (fvec [3, 6])
        = Inr (fmat [[4, 0], [4, 13 / 5]], fvec [3 / 5, 48 / 25], Fin (4 / 5))
   \<and> \<not> downdate_guard 1 (fmat [[4, 0], [4, 13 / 5]], fvec [3 / 5, 48 / 25], Fin (4 / 5))
   \<and> (\<exists>w2. chol_downdate (fmat [[5, 0], [34 / 5, 13 / 5]]) (fvec [3, 6])
               = Inr (fmat [[4, 0], [4, 1]], w2))"
proof -
  define L1 where "L1 = fmat [[5, 0], [34 / 5, 13 / 5]]"
  define w where "w = fvec [3, 6]"
  have sh: "is_shape 2 2 [[4, 0], [4, 1 :: real]]" by (simp add: is_shape_def)
  have len: "length [3, 6 :: real] = 2" by simp
  have tri: "lower_tri [[4, 0], [4, 1]]"
    by (simp add: lower_tri_def All_less_Suc)
  have pos: "pos_diag [[4, 0], [4, 1]]"
    by (simp add: pos_diag_def All_less_Suc)
  have up: "chol_update (fmat [[4, 0], [4, 1]]) (fvec [3, 6]) = Inr (L1, fvec [3 / 4, 3])"
    by (simp add: L1_def updown_eval array_eval fmat_def fvec_def sqrt_25_16 sqrt_169_16)
  have p0: "downdate_prefix 0 L1 w = Inr (L1, w, Fin 1)"
    by (simp add: downdate_prefix_def)
  have g0: "\<not> downdate_guard 0 (L1, w, Fin 1)"
    by (simp add: downdate_guard_def L1_def w_def fmat_def fvec_def)
  have p1: "downdate_prefix 1 L1 w
            = Inr (fmat [[4, 0], [4, 13 / 5]], fvec [3 / 5, 48 / 25], Fin (4 / 5))"
    by (simp add: downdate_prefix_def downdate_step_def downdate_head_def downdate_tail_def
        array_eval L1_def w_def fmat_def fvec_def sqrt_16_25)
  have g1: "\<not> downdate_guard 1 (fmat [[4, 0], [4, 13 / 5]], fvec [3 / 5, 48 / 25], Fin (4 / 5))"
    by (simp add: downdate_guard_def fmat_def fvec_def)
  have steps: "\<forall>j<2. \<forall>st. downdate_prefix j L1 (fvec [3, 6]) = Inr st \<longrightarrow> \<not> downdate_guard j st"
  proof (intro allI impI)
    fix j :: nat and st assume "j < 2" and p: "downdate_prefix j L1 (fvec [3, 6]) = Inr st"
    then consider "j = 0" | "j = 1" by arith
    then show "\<not> downdate_guard j st"
    proof cases
      case 1
      then show ?thesis using p p0 g0 by (simp add: w_def)
    next
      case 2
      then show ?thesis using p p1 g1 by (simp add: w_def)
    qed
  qed
  show ?thesis
    using sh len tri pos up p0 g0 p1 g1 update_downdate_roundtrip [OF sh len tri pos up steps]
    unfolding L1_def w_def by blast
qed

section \<open>The unified entry point where it agrees with update and downdate\<close>

lemma f_mul_one: "f_mul (Fin 1) x = x"
  by (cases x) (simp_all add: inf_signed_def)

lemma f_mul_minus_one: "f_mul (Fin (- 1)) x = f_neg x"
  by (cases x) (simp_all add: inf_signed_def)

lemma f_div_neg: "f_div (f_neg x) y = f_neg (f_div x y)"
  by (cases x; cases y) (auto simp: inf_signed_def)

lemma f_mul_neg: "f_mul (f_neg x) y = f_neg (f_mul x y)"
  by (cases x; cases y) (auto simp: inf_signed_def)

lemma update_step_length:
  assumes "length L = N" "length w = N" "j < N"
    and "update_tail j (update_head j (L, w, \<beta>)) = (L', w', \<beta>')"
  shows "length L' = N \<and> length w' = N"
  using assms
  by (auto simp: update_head_def update_tail_def Let_def set2_def set_col_below_def
      set_below_def col_below_def v_sub_def v_add_def v_scale_def)

lemma updown_step_update:
  assumes "k < length w"
  shows "updown_step True (Fin 1) k (L, w, \<beta>) = update_tail k (update_head k (L, w, \<beta>))"
proof -
  have a: "take (Suc k) (w[k := x]) = (take (Suc k) w)[k := x]" for x
    by (simp add: take_update_swap)
  have b: "drop (Suc k) (w[k := x]) = drop (Suc k) w" for x
    by simp
  have c: "col_below (set2 L k k x) k = col_below L k" for x
    by (simp add: col_below_def set2_def drop_update_cancel)
  have d: "(take (Suc k) w @ vs)[k := x] = (take (Suc k) w)[k := x] @ vs" for x vs
    using assms by (simp add: list_update_append)
  show ?thesis
    by (simp add: updown_step_def update_head_def update_tail_def Let_def f_mul_one
        set_below_def a b c d del: drop_Suc take_Suc)
qed

lemma update_loop_fold:
  assumes "length L = N" "length w = N" "j \<le> N"
  shows "update_loop N j (L, w, \<beta>) = fold (updown_step True (Fin 1)) [j..<N] (L, w, \<beta>)"
  using assms
proof (induction "N - j" arbitrary: j L w \<beta>)
  case 0
  then show ?case by (subst update_loop.simps) simp
next
  case (Suc d)
  then have j: "j < N" by simp
  obtain L' w' \<beta>' where st: "update_tail j (update_head j (L, w, \<beta>)) = (L', w', \<beta>')"
    by (metis prod_cases3)
  have len: "length L' = N \<and> length w' = N"
    using update_step_length [OF Suc.prems(1,2) j st] .
  have "update_loop N j (L, w, \<beta>) = update_loop N (Suc j) (L', w', \<beta>')"
    using update_loop_step [OF j Suc.prems(1,2)] st by simp
  also have "\<dots> = fold (updown_step True (Fin 1)) [Suc j..<N] (L', w', \<beta>')"
    using Suc.hyps(2) j len by (intro Suc.hyps(1)) auto
  also have "\<dots> = fold (updown_step True (Fin 1)) [j..<N] (L, w, \<beta>)"
    using j Suc.prems(2) st by (simp add: upt_conv_Cons updown_step_update)
  finally show ?case .
qed

text \<open>In the update direction and for \<open>N \<noteq> 1\<close>, \<^verbatim>\<open>chol_updown\<close> is \<^verbatim>\<open>chol_update\<close>, on all
  arrays.\<close>

lemma chol_updown_update:
  assumes "length L \<noteq> 1"
  shows "chol_updown L w True = chol_update L w"
proof (cases "is_shape (length L) (length L) L \<and> length w = length L")
  case False
  then show ?thesis by (auto simp: chol_updown_def chol_update_def Let_def)
next
  case True
  then show ?thesis
    using assms update_loop_fold [of L "length L" w 0 "Fin 1"]
    by (simp add: chol_updown_def chol_update_def Let_def)
qed

lemma v_add_scale_neg: "v_add xs (v_scale (f_neg c) ys) = v_sub xs (v_scale c ys)"
proof -
  have "map2 f_add xs (map (f_mul (f_neg c)) ys) = map2 f_sub xs (map (f_mul c) ys)"
    by (induction xs ys rule: list_induct2') (simp_all add: f_sub_def f_mul_neg)
  then show ?thesis by (simp add: v_add_def v_sub_def v_scale_def)
qed

lemma updown_step_downdate:
  assumes "k < length w" and "downdate_step k (L, w, \<beta>) = Inr st'"
  shows "updown_step False (Fin (- 1)) k (L, w, \<beta>) = st'"
proof -
  define \<alpha> where "\<alpha> = f_div (w ! k) (L ! k ! k)"
  define \<beta>2 where "\<beta>2 = f_sqrt (f_sub (f_mul \<beta> \<beta>) (f_mul \<alpha> \<alpha>))"
  define \<gamma> where "\<gamma> = f_div \<alpha> (f_mul \<beta>2 \<beta>)"
  have guard: "\<not> f_ge (f_mul \<alpha> \<alpha>) (f_mul \<beta> \<beta>)"
    using assms(2)
    by (auto simp: downdate_step_def downdate_head_def Let_def \<alpha>_def split: if_splits)
  have b2: "f_sqrt (f_add (f_mul \<beta> \<beta>) (f_mul (Fin (- 1)) (f_mul \<alpha> \<alpha>))) = \<beta>2"
    by (simp add: \<beta>2_def f_sub_def f_mul_minus_one)
  have g: "f_div (f_mul (Fin (- 1)) \<alpha>) (f_mul \<beta>2 \<beta>) = f_neg \<gamma>"
    by (simp add: \<gamma>_def f_mul_minus_one f_div_neg)
  have a: "take (Suc k) (w[k := x]) = (take (Suc k) w)[k := x]" for x
    by (simp add: take_update_swap)
  have b: "drop (Suc k) (w[k := x]) = drop (Suc k) w" for x
    by simp
  have d: "(take (Suc k) w @ vs)[k := x] = (take (Suc k) w)[k := x] @ vs" for x vs
    using assms(1) by (simp add: list_update_append)
  have "downdate_step k (L, w, \<beta>) = Inr (updown_step False (Fin (- 1)) k (L, w, \<beta>))"
    using guard
    by (simp add: downdate_step_def downdate_head_def downdate_tail_def updown_step_def Let_def
        set_below_def a b d b2 g v_add_scale_neg
        flip: \<alpha>_def \<beta>2_def \<gamma>_def del: drop_Suc take_Suc f_mul.simps f_div.simps)
  with assms(2) show ?thesis by simp
qed

lemma downdate_prefix_fold:
  assumes "length L = N" "length w = N" "j \<le> N"
    and "downdate_prefix j L w = Inr st"
  shows "fold (updown_step False (Fin (- 1))) [0..<j] (L, w, Fin 1) = st"
  using assms(3,4)
proof (induction j arbitrary: st)
  case 0
  then show ?case by (simp add: downdate_prefix_def)
next
  case (Suc j)
  from Suc.prems(2) obtain st1 where p: "downdate_prefix j L w = Inr st1"
    and s: "downdate_step j st1 = Inr st"
    by (auto simp: downdate_prefix_Suc split: sum.splits)
  obtain L1 w1 \<beta>1 where st1: "st1 = (L1, w1, \<beta>1)" by (metis prod_cases3)
  have "length L1 = N \<and> length w1 = N"
    using downdate_prefix_length [of j L w "Fin 1" L1 w1 \<beta>1 N] p st1 assms(1,2) Suc.prems(1)
    by (simp add: downdate_prefix_def)
  then have "updown_step False (Fin (- 1)) j (L1, w1, \<beta>1) = st"
    using s st1 Suc.prems(1) by (intro updown_step_downdate) auto
  then show ?case
    using Suc.IH [OF _ p] Suc.prems(1) st1 by simp
qed

text \<open>In the downdate direction and for \<open>N \<noteq> 1\<close>, \<^verbatim>\<open>chol_updown\<close> returns what
  \<^verbatim>\<open>chol_downdate\<close> returns, whenever \<^verbatim>\<open>chol_downdate\<close> returns.\<close>

lemma chol_updown_downdate:
  assumes "length L \<noteq> 1" and "chol_downdate L w = Inr R"
  shows "chol_updown L w False = Inr R"
proof -
  define N where "N = length L"
  from assms(2) have sh: "is_shape N N L" "length w = N"
    by (auto simp: chol_downdate_def Let_def N_def split: if_splits)
  from assms(2) obtain st where p: "downdate_prefix N L w = Inr st"
    and R: "R = (fst st, fst (snd st))"
    by (auto simp: chol_downdate_prefix [OF sh] split: sum.splits)
  have "fold (updown_step False (Fin (- 1))) [0..<N] (L, w, Fin 1) = st"
    using sh(2) p by (intro downdate_prefix_fold [of L N w N st]) (simp_all add: N_def)
  then show ?thesis
    using assms(1) sh R by (cases st) (simp add: chol_updown_def Let_def N_def)
qed

section \<open>The second return value of the update\<close>

lemma update_step_real_solve:
  assumes inv: "ud_inv 1 N G j (L, w, \<beta>)" and j: "j < N"
    and tri0: "\<And>i c. i < N \<Longrightarrow> c < N \<Longrightarrow> i < c \<Longrightarrow> L0 ! i ! c = 0"
    and sol: "solve_inv L0 w0 N j (L, w, \<beta>)"
  shows "solve_inv L0 w0 N (Suc j) (update_step_real j (L, w, \<beta>))"
proof -
  obtain L' w' \<beta>' where step: "update_step_real j (L, w, \<beta>) = (L', w', \<beta>')"
    by (metis prod_cases3)
  from inv have sh: "is_shape N N L" "length w = N" and diag: "0 < L ! j ! j"
    using j by (auto simp: ud_inv_def)
  note ent = update_step_real_entries [OF sh j step]
  from sol have cols: "\<And>i c. i < N \<Longrightarrow> c < N \<Longrightarrow> j \<le> c \<Longrightarrow> L ! i ! c = L0 ! i ! c"
    and res: "\<And>i. i < N \<Longrightarrow> (\<Sum>c<j. L0 ! i ! c * w ! c) + (if j \<le> i then w ! i else 0) = w0 ! i"
    by (auto simp: solve_inv_def)
  define \<alpha> where "\<alpha> = w ! j / L ! j ! j"
  have aj: "L0 ! j ! j * \<alpha> = w ! j"
    using diag cols [of j j] j by (simp add: \<alpha>_def)
  have cols': "L' ! i ! c = L0 ! i ! c" if "i < N" "c < N" "Suc j \<le> c" for i c
    using that ent(4) [of i c] cols [of i c] by simp
  have res': "(\<Sum>c<Suc j. L0 ! i ! c * w' ! c) + (if Suc j \<le> i then w' ! i else 0) = w0 ! i"
    if i: "i < N" for i
  proof -
    have "(\<Sum>c<j. L0 ! i ! c * w' ! c) = (\<Sum>c<j. L0 ! i ! c * w ! c)"
      by (rule sum.cong) (use j ent(5) in auto)
    then have "(\<Sum>c<Suc j. L0 ! i ! c * w' ! c) = (\<Sum>c<j. L0 ! i ! c * w ! c) + L0 ! i ! j * \<alpha>"
      using ent(5) [OF j] by (simp add: \<alpha>_def)
    moreover consider "i < j" | "i = j" | "j < i" by arith
    then have "L0 ! i ! j * \<alpha> + (if Suc j \<le> i then w' ! i else 0) = (if j \<le> i then w ! i else 0)"
    proof cases
      case 1
      then show ?thesis using tri0 [of i j] i j by simp
    next
      case 2
      then show ?thesis using aj by simp
    next
      case 3
      then show ?thesis
        using ent(5) [OF i] cols [of i j] i j by (simp add: \<alpha>_def)
    qed
    ultimately show ?thesis using res [OF i] by simp
  qed
  show ?thesis
    unfolding step solve_inv_def using cols' res' by simp
qed

lemma update_loop_real_solve:
  assumes "ud_inv 1 N G j (L, w, \<beta>)" and "solve_inv L0 w0 N j (L, w, \<beta>)" and "j \<le> N"
    and tri0: "\<And>i c. i < N \<Longrightarrow> c < N \<Longrightarrow> i < c \<Longrightarrow> L0 ! i ! c = 0"
  shows "\<exists>L' w' \<beta>'. update_loop N j (fmat L, fvec w, Fin \<beta>) = (fmat L', fvec w', Fin \<beta>')
           \<and> ud_inv 1 N G N (L', w', \<beta>') \<and> solve_inv L0 w0 N N (L', w', \<beta>')"
  using assms(1-3)
proof (induction "N - j" arbitrary: j L w \<beta>)
  case 0
  then have "j = N" by simp
  then show ?case
    using "0.prems"(1,2) by (subst update_loop.simps) auto
next
  case (Suc d)
  then have j: "j < N" by simp
  from Suc.prems(1) have sh: "is_shape N N L" "length w = N" and b: "0 < \<beta>"
    and nz: "L ! j ! j \<noteq> 0"
    using j by (auto simp: ud_inv_def)
  obtain L1 w1 \<beta>1 where st: "update_step_real j (L, w, \<beta>) = (L1, w1, \<beta>1)"
    by (metis prod_cases3)
  have inv1: "ud_inv 1 N G (Suc j) (L1, w1, \<beta>1)"
    using update_step_real_inv [OF Suc.prems(1) j] by (simp add: st)
  have sol1: "solve_inv L0 w0 N (Suc j) (L1, w1, \<beta>1)"
    using update_step_real_solve [OF Suc.prems(1) j tri0 Suc.prems(2)] by (simp add: st)
  have "update_loop N j (fmat L, fvec w, Fin \<beta>)
        = update_loop N (Suc j) (fmat L1, fvec w1, Fin \<beta>1)"
    using update_loop_step [of j N "fmat L" "fvec w" "Fin \<beta>"] j sh
      update_step_sim [OF sh j nz b]
    by (simp add: st is_shape_length)
  moreover have "\<exists>L' w' \<beta>'. update_loop N (Suc j) (fmat L1, fvec w1, Fin \<beta>1)
            = (fmat L', fvec w', Fin \<beta>') \<and> ud_inv 1 N G N (L', w', \<beta>')
            \<and> solve_inv L0 w0 N N (L', w', \<beta>')"
    using Suc.hyps(2) j by (intro Suc.hyps(1) [OF _ inv1 sol1]) auto
  ultimately show ?case by simp
qed

lemma forward_subst_real:
  assumes sh: "is_shape N N L" and len: "length w = N"
    and nz: "\<And>i. i < N \<Longrightarrow> L ! i ! i \<noteq> 0" and k: "k \<le> N"
  shows "\<exists>x. length x = k
           \<and> fold (\<lambda>i x. x @ [f_div (f_sub (fvec w ! i) (f_dot (take i (fmat L ! i)) x))
                                   (fmat L ! i ! i)]) [0..<k] [] = fvec x
           \<and> (\<forall>i<k. x ! i = (w ! i - (\<Sum>c<i. L ! i ! c * x ! c)) / L ! i ! i)"
  using k
proof (induction k)
  case 0
  show ?case by (rule exI [of _ "[]"]) (simp add: fvec_def)
next
  case (Suc k)
  then obtain x where lx: "length x = k"
    and fx: "fold (\<lambda>i x. x @ [f_div (f_sub (fvec w ! i) (f_dot (take i (fmat L ! i)) x))
                                   (fmat L ! i ! i)]) [0..<k] [] = fvec x"
    and rx: "\<forall>i<k. x ! i = (w ! i - (\<Sum>c<i. L ! i ! c * x ! c)) / L ! i ! i"
    by auto
  have kN: "k < N" using Suc.prems by simp
  have lenL: "length L = N" using sh by (rule is_shape_length)
  define y where "y = (w ! k - (\<Sum>c<k. L ! k ! c * x ! c)) / L ! k ! k"
  have tk: "take k (fmat L ! k) = fvec (take k (L ! k))"
    using kN lenL by (simp add: fmat_def fvec_def take_map)
  have dot: "f_dot (take k (fmat L ! k)) (fvec x) = Fin (\<Sum>c<k. L ! k ! c * x ! c)"
  proof -
    have "sum_list (map2 (*) (take k (L ! k)) x) = (\<Sum>c<k. L ! k ! c * x ! c)"
      using sum_list_map2_take [of k "L ! k" x] is_shape_row [OF sh kN] kN lx by simp
    then show ?thesis by (simp add: tk f_dot_fvec)
  qed
  have new: "f_div (f_sub (fvec w ! k) (f_dot (take k (fmat L ! k)) (fvec x))) (fmat L ! k ! k)
             = Fin y"
    using kN len nz [OF kN]
    by (simp add: dot nth_fvec nth_fmat [OF sh] f_sub_def y_def)
  show ?case
  proof (intro exI [of _ "x @ [y]"] conjI allI impI)
    show "length (x @ [y]) = Suc k" by (simp add: lx)
    show "fold (\<lambda>i x. x @ [f_div (f_sub (fvec w ! i) (f_dot (take i (fmat L ! i)) x))
                                   (fmat L ! i ! i)]) [0..<Suc k] [] = fvec (x @ [y])"
      by (simp add: fx new) (simp add: fvec_def)
    fix i assume i: "i < Suc k"
    have pre: "(\<Sum>c<i. L ! i ! c * (x @ [y]) ! c) = (\<Sum>c<i. L ! i ! c * x ! c)"
      by (rule sum.cong) (use i lx in \<open>auto simp: nth_append\<close>)
    show "(x @ [y]) ! i = (w ! i - (\<Sum>c<i. L ! i ! c * (x @ [y]) ! c)) / L ! i ! i"
    proof (cases "i = k")
      case True
      then show ?thesis using lx by (simp add: pre y_def nth_append)
    next
      case False
      then have "i < k" using i by simp
      then show ?thesis using rx lx by (simp add: pre nth_append)
    qed
  qed
qed

lemma la_solve_real:
  assumes sh: "is_shape N N L" and len: "length w = N"
    and nz: "\<And>i. i < N \<Longrightarrow> L ! i ! i \<noteq> 0"
  shows "\<exists>x. length x = N \<and> la_solve (fmat L) (fvec w) = Inr (fvec x)
           \<and> (\<forall>i<N. x ! i = (w ! i - (\<Sum>c<i. L ! i ! c * x ! c)) / L ! i ! i)"
proof -
  have lenL: "length L = N" using sh by (rule is_shape_length)
  from forward_subst_real [OF sh len nz, of N] obtain x where lx: "length x = N"
    and fx: "forward_subst (fmat L) (fvec w) = fvec x"
    and rx: "\<forall>i<N. x ! i = (w ! i - (\<Sum>c<i. L ! i ! c * x ! c)) / L ! i ! i"
    by (auto simp: forward_subst_def lenL)
  have fin: "all_finite (fmat L)" "list_all is_fin (fvec w)"
    by (simp_all add: all_finite_def fmat_def fvec_def list_all_iff)
  have "\<not> list_ex (\<lambda>i. fmat L ! i ! i = Fin 0) [0..<length (fmat L)]"
    using nz by (auto simp: list_ex_iff lenL nth_fmat [OF sh])
  then have "la_solve (fmat L) (fvec w) = Inr (fvec x)"
    using fin by (simp add: la_solve_def fx)
  then show ?thesis using lx rx by blast
qed

lemma triangular_solution_unique:
  fixes L :: "real list list"
  assumes tri: "\<And>i c. i < N \<Longrightarrow> c < N \<Longrightarrow> i < c \<Longrightarrow> L ! i ! c = 0"
    and nz: "\<And>i. i < N \<Longrightarrow> L ! i ! i \<noteq> 0"
    and lx: "length x = N" and ly: "length y = N"
    and rx: "\<forall>i<N. x ! i = (w ! i - (\<Sum>c<i. L ! i ! c * x ! c)) / L ! i ! i"
    and sy: "\<forall>i<N. (\<Sum>c<N. L ! i ! c * y ! c) = w ! i"
  shows "x = y"
proof -
  have ry: "y ! i = (w ! i - (\<Sum>c<i. L ! i ! c * y ! c)) / L ! i ! i" if i: "i < N" for i
  proof -
    have "(\<Sum>c<Suc i. L ! i ! c * y ! c) = (\<Sum>c<N. L ! i ! c * y ! c)"
    proof (rule sum.mono_neutral_left)
      show "finite {..<N}" by simp
      show "{..<Suc i} \<subseteq> {..<N}" using i by auto
      show "\<forall>c\<in>{..<N} - {..<Suc i}. L ! i ! c * y ! c = 0"
        using tri [OF i] by auto
    qed
    then have "(\<Sum>c<i. L ! i ! c * y ! c) + L ! i ! i * y ! i = w ! i"
      using sy i by simp
    then show ?thesis using nz [OF i] by (simp add: field_simps)
  qed
  have "i < N \<Longrightarrow> x ! i = y ! i" for i
  proof (induction i rule: less_induct)
    case (less i)
    have "(\<Sum>c<i. L ! i ! c * x ! c) = (\<Sum>c<i. L ! i ! c * y ! c)"
      by (rule sum.cong) (use less in auto)
    then show ?case using rx ry [OF less.prems] less.prems by simp
  qed
  then show ?thesis
    using lx ly by (intro nth_equalityI) auto
qed

text \<open>The second value that \<^verbatim>\<open>chol_update\<close> returns on a lower-triangular \<open>L\<close> with positive
  diagonal is the solution \<open>x\<close> of \<open>L x = w\<close>, the one \<^verbatim>\<open>la.solve(L, w)\<close> returns.\<close>

lemma chol_update_second_value:
  assumes "is_shape N N L" "length w = N" "lower_tri L" "pos_diag L"
  shows "\<exists>L' x. chol_update (fmat L) (fvec w) = Inr (L', fvec x)
           \<and> la_solve (fmat L) (fvec w) = Inr (fvec x)
           \<and> (\<forall>i<N. (\<Sum>c<N. L ! i ! c * x ! c) = w ! i)"
proof -
  have len: "length L = N" using assms(1) by (rule is_shape_length)
  have tri: "\<And>i c. i < N \<Longrightarrow> c < N \<Longrightarrow> i < c \<Longrightarrow> L ! i ! c = 0"
    using assms(3) by (simp add: lower_tri_def len)
  have nz: "\<And>i. i < N \<Longrightarrow> L ! i ! i \<noteq> 0"
    using assms(4) by (auto simp: pos_diag_def len)
  have init: "solve_inv L w N 0 (L, w, 1)"
    by (simp add: solve_inv_def)
  from update_loop_real_solve [OF ud_inv_init [OF assms, where s = 1] init _ tri]
  obtain L' w' \<beta>' where
    run: "update_loop N 0 (fmat L, fvec w, Fin 1) = (fmat L', fvec w', Fin \<beta>')"
    and inv: "ud_inv 1 N (\<lambda>i k. gram L i k + 1 * (w ! i * w ! k)) N (L', w', \<beta>')"
    and sol: "solve_inv L w N N (L', w', \<beta>')"
    by auto
  have up: "chol_update (fmat L) (fvec w) = Inr (fmat L', fvec w')"
    using assms(1,2) by (simp add: chol_update_def Let_def len run)
  have lw': "length w' = N" using inv by (simp add: ud_inv_def)
  have eqs: "\<forall>i<N. (\<Sum>c<N. L ! i ! c * w' ! c) = w ! i"
    using sol by (simp add: solve_inv_def)
  from la_solve_real [OF assms(1,2) nz] obtain x where lx: "length x = N"
    and sx: "la_solve (fmat L) (fvec w) = Inr (fvec x)"
    and rx: "\<forall>i<N. x ! i = (w ! i - (\<Sum>c<i. L ! i ! c * x ! c)) / L ! i ! i"
    by blast
  have "x = w'"
    using tri nz lx lw' rx eqs by (rule triangular_solution_unique)
  then show ?thesis using up sx eqs by blast
qed

section \<open>The right-looking factorization of a positive definite matrix\<close>

lemma chol_right_step_entries:
  assumes shA: "is_shape N N A" and shL: "is_shape N N L" and k: "k < N"
    and step: "chol_right_step k (A, L) = (A', L')"
  defines "d \<equiv> f_sqrt (A ! k ! k)"
  shows "is_shape N N A'" and "is_shape N N L'"
    and "\<And>i c. i < N \<Longrightarrow> c < N \<Longrightarrow>
           L' ! i ! c = (if c = k \<and> k \<le> i then (if i = k then d else f_div (A ! i ! k) d)
                         else L ! i ! c)"
    and "\<And>i j. i < N \<Longrightarrow> j < N \<Longrightarrow>
           A' ! i ! j = (if k < i \<and> k < j then f_sub (A ! i ! j) (f_mul (L' ! i ! k) (L' ! j ! k))
                         else A ! i ! j)"
proof -
  define L1 where "L1 = set2 L k k d"
  define vs where "vs = map (\<lambda>v. f_div v (L1 ! k ! k)) (col_below A k)"
  define L2 where "L2 = set_col_below L1 k vs"
  define Ou where "Ou = outer (col_below L2 k)"
  have "chol_right_step k (A, L)
        = (take (Suc k) A @ map2 (\<lambda>r u. take (Suc k) r @ v_sub (drop (Suc k) r) u) (drop (Suc k) A) Ou,
           L2)"
    by (simp only: chol_right_step_def Let_def prod.case Ou_def L2_def vs_def L1_def d_def)
  with step have A': "A' = take (Suc k) A
        @ map2 (\<lambda>r u. take (Suc k) r @ v_sub (drop (Suc k) r) u) (drop (Suc k) A) Ou"
    and L': "L' = L2"
    by simp_all
  have lenA: "length A = N" and lenL: "length L = N"
    using shA shL by (simp_all add: is_shape_length)
  have sh1: "is_shape N N L1"
    unfolding L1_def using shL by (rule shape_set2)
  have len1: "length L1 = N" using sh1 by (rule is_shape_length)
  have lvs: "length vs = N - Suc k"
    by (simp add: vs_def length_col_below lenA)
  have sh2: "is_shape N N L2"
    unfolding L2_def using sh1 lvs by (rule shape_set_col_below)
  then show "is_shape N N L'" by (simp add: L')
  have len2: "length L2 = N" using sh2 by (rule is_shape_length)
  have L1e: "L1 ! i ! c = (if i = k \<and> c = k then d else L ! i ! c)" for i c
    unfolding L1_def using nth_set2 [OF shL k k] by simp
  have vse: "vs ! (i - Suc k) = f_div (A ! i ! k) d" if "k < i" "i < N" for i
  proof -
    have idx: "i - Suc k < N - Suc k" and i': "Suc k + (i - Suc k) = i"
      using that by arith+
    show ?thesis
      using idx i' nth_col_below [of k "i - Suc k" A]
      by (simp add: vs_def length_col_below lenA L1e)
  qed
  show L'e: "L' ! i ! c = (if c = k \<and> k \<le> i then (if i = k then d else f_div (A ! i ! k) d)
                         else L ! i ! c)" if "i < N" "c < N" for i c
  proof (cases "k < i \<and> c = k")
    case True
    then show ?thesis
      unfolding L' L2_def using nth_set_col_below [OF sh1 lvs that(1) k] vse [of i] that by simp
  next
    case False
    then have "L' ! i ! c = L1 ! i ! c"
      unfolding L' L2_def using nth_set_col_below [OF sh1 lvs that(1) k] by auto
    then show ?thesis using False by (auto simp: L1e)
  qed
  have lO: "length Ou = N - Suc k"
    by (simp add: Ou_def outer_def length_col_below len2)
  have Oe: "Ou ! (i - Suc k) ! (j - Suc k) = f_mul (L2 ! i ! k) (L2 ! j ! k)"
    and lOr: "length (Ou ! (i - Suc k)) = N - Suc k"
    if "k < i" "i < N" "k < j" "j < N" for i j
  proof -
    have idx: "i - Suc k < N - Suc k" "j - Suc k < N - Suc k"
      and i': "Suc k + (i - Suc k) = i" "Suc k + (j - Suc k) = j"
      using that by arith+
    show "Ou ! (i - Suc k) ! (j - Suc k) = f_mul (L2 ! i ! k) (L2 ! j ! k)"
      using idx i' nth_col_below [of k "i - Suc k" L2] nth_col_below [of k "j - Suc k" L2]
      by (simp add: Ou_def outer_def length_col_below len2)
    show "length (Ou ! (i - Suc k)) = N - Suc k"
      using idx by (simp add: Ou_def outer_def length_col_below len2)
  qed
  have row: "A' ! i = (if k < i then take (Suc k) (A ! i) @ v_sub (drop (Suc k) (A ! i)) (Ou ! (i - Suc k))
                       else A ! i)" if "i < N" for i
  proof (cases "k < i")
    case True
    then have idx: "i - Suc k < N - Suc k" and i': "Suc k + (i - Suc k) = i"
      and ni: "\<not> i < Suc k"
      using that by arith+
    show ?thesis
      using True idx i' ni that k
      by (simp add: A' nth_append lenA lO min_def del: drop_Suc take_Suc)
  next
    case False
    then show ?thesis using that k by (simp add: A' nth_append lenA min_def)
  qed
  show "is_shape N N A'"
    unfolding is_shape_iff
  proof (intro conjI allI impI)
    show "length A' = N"
      using k by (auto simp: A' lenA lO min_def)
    fix i assume i: "i < N"
    show "length (A' ! i) = N"
    proof (cases "k < i")
      case True
      have "length (Ou ! (i - Suc k)) = N - Suc k"
        using lOr [of i i] True i by simp
      then show ?thesis
        using True i k is_shape_row [OF shA i] by (simp add: row v_sub_def min_def)
    next
      case False
      then show ?thesis using i is_shape_row [OF shA i] by (simp add: row)
    qed
  qed
  show "A' ! i ! j = (if k < i \<and> k < j then f_sub (A ! i ! j) (f_mul (L' ! i ! k) (L' ! j ! k))
                         else A ! i ! j)" if "i < N" "j < N" for i j
  proof (cases "k < i")
    case False
    then show ?thesis using that by (simp add: row)
  next
    case i: True
    have lr: "length (A ! i) = N" using is_shape_row [OF shA that(1)] .
    show ?thesis
    proof (cases "k < j")
      case False
      then have "j < Suc k" by simp
      then show ?thesis
        using i that lr False by (simp add: row nth_append min_def del: take_Suc)
    next
      case j: True
      then have idx: "j - Suc k < N - Suc k" and j': "Suc k + (j - Suc k) = j"
        and nj: "\<not> j < Suc k"
        using that by arith+
      have lo: "length (Ou ! (i - Suc k)) = N - Suc k"
        using lOr [of i i] i that by simp
      have "A' ! i ! j = v_sub (drop (Suc k) (A ! i)) (Ou ! (i - Suc k)) ! (j - Suc k)"
        using i that lr nj k by (simp add: row nth_append min_def del: drop_Suc take_Suc)
      also have "\<dots> = f_sub (A ! i ! j) (Ou ! (i - Suc k) ! (j - Suc k))"
        unfolding v_sub_def using idx j' lr lo
        by (subst nth_map2) (simp_all del: drop_Suc)
      finally show ?thesis
        using i j Oe [of i j] that by (simp add: L')
    qed
  qed
qed

lemma left_columns_real_Suc:
  "left_columns_real A (Suc k) = left_step_real A k (left_columns_real A k)"
  by (simp add: left_columns_real_def)

lemma left_columns_prefix:
  assumes spd: "spd A" and sh: "is_shape N N A" and k: "k \<le> N"
  shows "left_inv A k (left_columns_real A k)"
    and "fold (chol_left_step (fmat A)) [0..<k] (zeros N N) = fmat (left_columns_real A k)"
    and "for_loop [0..<k] (chol_super_step (fmat A) (cumsum0 (replicate N 1))) (zeros N N)
           = Inr (fmat (left_columns_real A k))"
proof -
  have len: "length A = N" using sh by (rule is_shape_length)
  have "left_inv A k (left_columns_real A k)
        \<and> fold (chol_left_step (fmat A)) [0..<k] (zeros N N) = fmat (left_columns_real A k)
        \<and> for_loop [0..<k] (chol_super_step (fmat A) (cumsum0 (replicate N 1))) (zeros N N)
           = Inr (fmat (left_columns_real A k))"
    using k
  proof (induction k)
    case 0
    show ?case
      using left_inv_zeros [OF sh] fmat_zeros [OF sh] by (simp add: left_columns_real_def)
  next
    case (Suc k)
    define L where "L = left_columns_real A k"
    from Suc have inv: "left_inv A k L"
      and left: "fold (chol_left_step (fmat A)) [0..<k] (zeros N N) = fmat L"
      and super: "for_loop [0..<k] (chol_super_step (fmat A) (cumsum0 (replicate N 1))) (zeros N N)
                  = Inr (fmat L)"
      by (simp_all add: L_def)
    have kN: "k < N" using Suc.prems by simp
    have shL: "is_shape N N L" using inv by (simp add: left_inv_def len Let_def)
    have pos: "0 < A ! k ! k - (\<Sum>c<k. L ! k ! c * L ! k ! c)"
      using spd len inv kN by (rule spd_radicand_pos)
    note sim = chol_left_step_sim [OF sh shL kN pos]
    have sstep: "chol_super_step (fmat A) (cumsum0 (replicate N 1)) k (fmat L)
                 = Inr (chol_left_step (fmat A) k (fmat L))"
    proof (rule chol_super_step_ones)
      show "is_shape N N (fmat A)" "is_shape N N (fmat L)" using sh shL by simp_all
      show "k < N" by (rule kN)
      show "f_sub (fmat A ! k ! k) (f_dot (take k (fmat L ! k)) (take k (fmat L ! k)))
            = Fin (A ! k ! k - (\<Sum>c<k. L ! k ! c * L ! k ! c))"
        by (rule sim(1))
      show "0 < A ! k ! k - (\<Sum>c<k. L ! k ! c * L ! k ! c)" by (rule pos)
    qed
    show ?case
      unfolding left_columns_real_Suc L_def [symmetric]
      using left_step_real_inv [OF spd len inv kN]
      by (simp add: left sim(2) for_loop_append super sstep)
  qed
  then show "left_inv A k (left_columns_real A k)"
    and "fold (chol_left_step (fmat A)) [0..<k] (zeros N N) = fmat (left_columns_real A k)"
    and "for_loop [0..<k] (chol_super_step (fmat A) (cumsum0 (replicate N 1))) (zeros N N)
           = Inr (fmat (left_columns_real A k))"
    by simp_all
qed

lemma right_step_real:
  assumes spd: "spd A" and sh: "is_shape N N A" and k: "k < N"
    and inv: "right_inv A k (Aw, L)"
  shows "\<exists>Aw'. chol_right_step k (fmat Aw, fmat L) = (fmat Aw', fmat (left_step_real A k L))
           \<and> right_inv A (Suc k) (Aw', left_step_real A k L)"
proof -
  have len: "length A = N" using sh by (rule is_shape_length)
  from inv have L: "L = left_columns_real A k" and shW: "is_shape N N Aw"
    and work: "\<And>i j. i < N \<Longrightarrow> j < N \<Longrightarrow> k \<le> i \<Longrightarrow> k \<le> j \<Longrightarrow>
                 Aw ! i ! j = A ! i ! j - (\<Sum>c<k. L ! i ! c * L ! j ! c)"
    by (simp_all add: right_inv_def len Let_def)
  have linv: "left_inv A k L"
    unfolding L by (rule left_columns_prefix(1) [OF spd sh]) (use k in simp)
  have shL: "is_shape N N L" using linv by (simp add: left_inv_def len Let_def)
  define x where "x = A ! k ! k - (\<Sum>c<k. L ! k ! c * L ! k ! c)"
  have pos: "0 < x"
    unfolding x_def using spd len linv k by (rule spd_radicand_pos)
  then have sx: "0 < sqrt x" by simp
  define Ls where "Ls = left_step_real A k L"
  have shLs: "is_shape N N Ls"
    unfolding Ls_def using len by (rule left_step_real_shape)
  have Lse: "Ls ! i ! c = (if c = k \<and> k \<le> i
            then (if i = k then sqrt x else (A ! i ! k - (\<Sum>d<k. L ! i ! d * L ! k ! d)) / sqrt x)
            else L ! i ! c)" if "i < N" "c < N" for i c
    unfolding Ls_def x_def using len that by (rule left_step_real_nth)
  define Aw' where "Aw' = map (\<lambda>i. map (\<lambda>j. if k < i \<and> k < j
                                               then Aw ! i ! j - Ls ! i ! k * Ls ! j ! k
                                               else Aw ! i ! j) [0..<N]) [0..<N]"
  have shW': "is_shape N N Aw'" by (simp add: Aw'_def is_shape_iff)
  have W'e: "Aw' ! i ! j = (if k < i \<and> k < j then Aw ! i ! j - Ls ! i ! k * Ls ! j ! k
                            else Aw ! i ! j)" if "i < N" "j < N" for i j
    using that by (simp add: Aw'_def)
  obtain A2 L2 where step: "chol_right_step k (fmat Aw, fmat L) = (A2, L2)"
    by (cases "chol_right_step k (fmat Aw, fmat L)") auto
  have shW2: "is_shape N N (fmat Aw)" and shL2: "is_shape N N (fmat L)"
    using shW shL by simp_all
  note ent = chol_right_step_entries [OF shW2 shL2 k step]
  have d: "f_sqrt (fmat Aw ! k ! k) = Fin (sqrt x)"
    using work [of k k] k pos by (simp add: nth_fmat [OF shW] x_def)
  have L2eq: "L2 = fmat Ls"
  proof (rule mat_eqI [of N N])
    show "is_shape N N L2" by (rule ent(2))
    show "is_shape N N (fmat Ls)" using shLs by simp
    fix i c assume ic: "i < N" "c < N"
    show "L2 ! i ! c = fmat Ls ! i ! c"
      unfolding ent(3) [OF ic] d nth_fmat [OF shLs ic] Lse [OF ic]
      using ic k sx work [of i k]
      by (auto simp: nth_fmat [OF shW] nth_fmat [OF shL])
  qed
  have A2eq: "A2 = fmat Aw'"
  proof (rule mat_eqI [of N N])
    show "is_shape N N A2" by (rule ent(1))
    show "is_shape N N (fmat Aw')" using shW' by simp
    fix i j assume ij: "i < N" "j < N"
    show "A2 ! i ! j = fmat Aw' ! i ! j"
      unfolding ent(4) [OF ij] nth_fmat [OF shW' ij] W'e [OF ij] L2eq
      using ij k by (simp add: nth_fmat [OF shW] nth_fmat [OF shLs] f_sub_def)
  qed
  have winv: "Aw' ! i ! j = A ! i ! j - (\<Sum>c<Suc k. Ls ! i ! c * Ls ! j ! c)"
    if "i < N" "j < N" "Suc k \<le> i" "Suc k \<le> j" for i j
  proof -
    have "(\<Sum>c<k. Ls ! i ! c * Ls ! j ! c) = (\<Sum>c<k. L ! i ! c * L ! j ! c)"
      by (rule sum.cong) (use that k Lse in auto)
    then show ?thesis
      using that work [of i j] by (simp add: W'e)
  qed
  have "right_inv A (Suc k) (Aw', Ls)"
    unfolding right_inv_def Let_def len
    using shW' winv by (simp add: Ls_def L left_columns_real_Suc)
  then show ?thesis
    using step A2eq L2eq by (auto simp: Ls_def)
qed

lemma right_prefix:
  assumes spd: "spd A" and sh: "is_shape N N A" and k: "k \<le> N"
  shows "\<exists>Aw. fold chol_right_step [0..<k] (fmat A, zeros N N)
                = (fmat Aw, fmat (left_columns_real A k))
              \<and> right_inv A k (Aw, left_columns_real A k)"
  using k
proof (induction k)
  case 0
  have "right_inv A 0 (A, left_columns_real A 0)"
    using sh by (simp add: right_inv_def Let_def is_shape_length)
  then show ?case
    using fmat_zeros [OF sh] by (auto simp: left_columns_real_def)
next
  case (Suc k)
  then obtain Aw where run: "fold chol_right_step [0..<k] (fmat A, zeros N N)
                = (fmat Aw, fmat (left_columns_real A k))"
    and inv: "right_inv A k (Aw, left_columns_real A k)"
    by auto
  have kN: "k < N" using Suc.prems by simp
  from right_step_real [OF spd sh kN inv] obtain Aw' where
    step: "chol_right_step k (fmat Aw, fmat (left_columns_real A k))
           = (fmat Aw', fmat (left_columns_real A (Suc k)))"
    and inv': "right_inv A (Suc k) (Aw', left_columns_real A (Suc k))"
    by (auto simp: left_columns_real_Suc)
  show ?case
    using run step inv' by auto
qed

lemma chol_right_is_chol_left:
  assumes "is_shape N N A" and "spd A"
  shows "chol_right (fmat A) lower = chol_left (fmat A) lower"
proof -
  have len: "length A = N" using assms(1) by (rule is_shape_length)
  from right_prefix [OF assms(2,1), of N] obtain Aw where
    "fold chol_right_step [0..<N] (fmat A, zeros N N) = (fmat Aw, fmat (left_columns_real A N))"
    by auto
  then show ?thesis
    using assms(1) left_columns_prefix(2) [OF assms(2,1), of N]
    by (simp add: chol_right_def chol_left_def Let_def len)
qed

section \<open>The left-looking factorization that skips the zero entries of row k\<close>

text \<open>One pass of the inner loop of \<^verbatim>\<open>chol_left_amp\<close> subtracts a multiple of column \<open>j\<close>
  from the part of the work vector from \<open>k\<close> on; the whole loop subtracts the sum over the
  columns it visits.\<close>

lemma amp_inner_real:
  assumes shL: "is_shape N N L" and k: "k < N" and j: "j < N"
    and p: "length p = k" and b: "length b = N - k"
  shows "amp_inner k (fmat L) j (p @ fvec b)
         = p @ fvec (map (\<lambda>i. b ! i - L ! (k + i) ! j * L ! k ! j) [0..<N - k])"
proof -
  have len: "length L = N" using shL by (rule is_shape_length)
  have "v_sub (fvec b) (map (\<lambda>r. f_mul (r ! j) (fmat L ! k ! j)) (drop k (fmat L)))
        = fvec (map (\<lambda>i. b ! i - L ! (k + i) ! j * L ! k ! j) [0..<N - k])"
  proof (rule nth_equalityI)
    show "length (v_sub (fvec b) (map (\<lambda>r. f_mul (r ! j) (fmat L ! k ! j)) (drop k (fmat L))))
          = length (fvec (map (\<lambda>i. b ! i - L ! (k + i) ! j * L ! k ! j) [0..<N - k]))"
      by (simp add: v_sub_def fvec_def fmat_def b len)
    fix i assume "i < length (v_sub (fvec b)
                    (map (\<lambda>r. f_mul (r ! j) (fmat L ! k ! j)) (drop k (fmat L))))"
    then have i: "i < N - k" by (simp add: v_sub_def fvec_def fmat_def b len)
    then have ki: "k + i < N" by simp
    have "fmat L ! (k + i) ! j = Fin (L ! (k + i) ! j)" "fmat L ! k ! j = Fin (L ! k ! j)"
      using nth_fmat [OF shL ki j] nth_fmat [OF shL k j] by simp_all
    moreover have "drop k (fmat L) ! i = fmat L ! (k + i)"
      using ki by (simp add: fmat_def len)
    ultimately show "v_sub (fvec b) (map (\<lambda>r. f_mul (r ! j) (fmat L ! k ! j)) (drop k (fmat L))) ! i
          = fvec (map (\<lambda>i. b ! i - L ! (k + i) ! j * L ! k ! j) [0..<N - k]) ! i"
      using i by (simp add: v_sub_def fvec_def b len f_sub_def fmat_def)
  qed
  then show ?thesis
    by (simp add: amp_inner_def p)
qed

lemma amp_fold_real:
  assumes shL: "is_shape N N L" and k: "k < N" and p: "length p = k"
  shows "length b = N - k \<Longrightarrow> \<forall>j\<in>set js. j < N \<Longrightarrow>
         fold (amp_inner k (fmat L)) js (p @ fvec b)
         = p @ fvec (map (\<lambda>i. b ! i - sum_list (map (\<lambda>j. L ! (k + i) ! j * L ! k ! j) js))
                      [0..<N - k])"
proof (induction js arbitrary: b)
  case Nil
  have "map (\<lambda>i. b ! i) [0..<N - k] = b"
    using Nil(1) map_nth [of b] by simp
  then show ?case by simp
next
  case (Cons j js)
  define b' where "b' = map (\<lambda>i. b ! i - L ! (k + i) ! j * L ! k ! j) [0..<N - k]"
  have j: "j < N" and js: "\<forall>j\<in>set js. j < N" using Cons.prems(2) by simp_all
  have lb': "length b' = N - k" by (simp add: b'_def)
  have "fold (amp_inner k (fmat L)) (j # js) (p @ fvec b)
        = fold (amp_inner k (fmat L)) js (p @ fvec b')"
    using amp_inner_real [OF shL k j p Cons.prems(1)] by (simp add: b'_def)
  also have "\<dots> = p @ fvec (map (\<lambda>i. b' ! i - sum_list (map (\<lambda>j. L ! (k + i) ! j * L ! k ! j) js))
                      [0..<N - k])"
    using lb' js by (rule Cons.IH)
  also have "map (\<lambda>i. b' ! i - sum_list (map (\<lambda>j. L ! (k + i) ! j * L ! k ! j) js)) [0..<N - k]
             = map (\<lambda>i. b ! i - sum_list (map (\<lambda>j. L ! (k + i) ! j * L ! k ! j) (j # js)))
                 [0..<N - k]"
    by (rule map_cong) (simp_all add: b'_def)
  finally show ?case .
qed

lemma sum_list_filter_nonzero:
  fixes f :: "nat \<Rightarrow> real"
  assumes "\<And>j. j < N \<Longrightarrow> \<not> P j \<Longrightarrow> f j = 0" and "\<And>j. k \<le> j \<Longrightarrow> j < N \<Longrightarrow> f j = 0"
    and "k \<le> N"
  shows "sum_list (map f (filter P [0..<N])) = (\<Sum>j<k. f j)"
proof -
  have "sum_list (map f (filter P xs)) = sum_list (map f xs)" if "\<forall>j\<in>set xs. j < N" for xs
    using that assms(1) by (induction xs) auto
  then have "sum_list (map f (filter P [0..<N])) = sum_list (map f [0..<N])"
    by simp
  also have "\<dots> = sum f {..<N}"
    by (simp add: sum_list_distinct_conv_sum_set atLeast0LessThan)
  also have "\<dots> = sum f {..<k}"
    by (rule sum.mono_neutral_right) (use assms(2,3) in auto)
  finally show ?thesis .
qed

lemma chol_left_amp_step_sim:
  assumes shA: "is_shape N N A" and inv: "left_inv A k L" and k: "k < N"
    and pos: "0 < A ! k ! k - (\<Sum>c<k. L ! k ! c * L ! k ! c)"
    and a: "length a = N"
  shows "\<exists>a'. chol_left_amp_step (fmat A) k (fmat L, a) = (fmat (left_step_real A k L), a')
              \<and> length a' = N"
proof -
  have lenA: "length A = N" using shA by (rule is_shape_length)
  from inv have shL: "is_shape N N L"
    and zero: "\<And>i c. i < N \<Longrightarrow> c < N \<Longrightarrow> k \<le> c \<or> i < c \<Longrightarrow> L ! i ! c = 0"
    by (auto simp: left_inv_def lenA Let_def)
  have lenL: "length L = N" using shL by (rule is_shape_length)
  define x where "x = A ! k ! k - (\<Sum>c<k. L ! k ! c * L ! k ! c)"
  have sx: "0 < sqrt x" using pos by (simp add: x_def)
  define p where "p = take k a"
  have lp: "length p = k" using a k by (simp add: p_def)
  define b where "b = map (\<lambda>r. r ! k) (drop k A)"
  have lb: "length b = N - k" by (simp add: b_def lenA)
  have be: "b ! i = A ! (k + i) ! k" if "i < N - k" for i
    using that by (simp add: b_def lenA)
  define js where "js = filter (\<lambda>j. f_nonzero (fmat L ! k ! j)) [0..<length (fmat L ! k)]"
  have lrow: "length (fmat L ! k) = N"
    using is_shape_row [of N N "fmat L" k] shL k by simp
  have js: "js = filter (\<lambda>j. L ! k ! j \<noteq> 0) [0..<N]"
    unfolding js_def lrow
    by (rule filter_cong) (simp_all add: nth_fmat [OF shL k])
  have jsN: "\<forall>j\<in>set js. j < N" by (simp add: js)
  define c where "c = map (\<lambda>i. b ! i - sum_list (map (\<lambda>j. L ! (k + i) ! j * L ! k ! j) js))
                        [0..<N - k]"
  have lc: "length c = N - k" by (simp add: c_def)
  have ce: "c ! i = A ! (k + i) ! k - (\<Sum>d<k. L ! (k + i) ! d * L ! k ! d)" if "i < N - k" for i
  proof -
    have "sum_list (map (\<lambda>j. L ! (k + i) ! j * L ! k ! j) js)
          = (\<Sum>d<k. L ! (k + i) ! d * L ! k ! d)"
      unfolding js
      by (rule sum_list_filter_nonzero) (use k zero [of k] in auto)
    then show ?thesis
      using that by (simp add: c_def be)
  qed
  define a1 where "a1 = take k a @ map (\<lambda>r. r ! k) (drop k (fmat A))"
  have "map (\<lambda>r. r ! k) (drop k (fmat A)) = fvec b"
  proof (rule nth_equalityI)
    show "length (map (\<lambda>r. r ! k) (drop k (fmat A))) = length (fvec b)"
      by (simp add: fvec_def fmat_def lb lenA)
    fix i assume "i < length (map (\<lambda>r. r ! k) (drop k (fmat A)))"
    then have i: "i < N - k" by (simp add: fmat_def lenA)
    then have ki: "k + i < N" by simp
    have "drop k (fmat A) ! i = fmat A ! (k + i)"
      using ki by (simp add: fmat_def lenA)
    then show "map (\<lambda>r. r ! k) (drop k (fmat A)) ! i = fvec b ! i"
      using i nth_fmat [OF shA ki k] by (simp add: fvec_def lb be fmat_def lenA)
  qed
  then have a1: "a1 = p @ fvec b"
    by (simp add: a1_def p_def)
  define a2 where "a2 = fold (amp_inner k (fmat L)) js a1"
  have a2: "a2 = p @ fvec c"
    unfolding a2_def a1 c_def using shL k lp lb jsN by (rule amp_fold_real)
  have la2: "length a2 = N" using k by (simp add: a2 lp lc fvec_def)
  have a2k: "a2 ! k = Fin x"
    using ce [of 0] k by (simp add: a2 nth_append lp fvec_def lc x_def)
  define L1 where "L1 = set2 (fmat L) k k (f_sqrt (a2 ! k))"
  have shL': "is_shape N N (fmat L)" using shL by simp
  have sh1: "is_shape N N L1"
    unfolding L1_def using shL' by (rule shape_set2)
  have L1e: "L1 ! i ! c = (if i = k \<and> c = k then Fin (sqrt x) else fmat L ! i ! c)" for i c
    unfolding L1_def a2k using nth_set2 [OF shL' k k] pos by (simp add: x_def)
  define vs where "vs = map (\<lambda>v. f_div v (L1 ! k ! k)) (drop (Suc k) a2)"
  have lvs: "length vs = N - Suc k" by (simp add: vs_def la2)
  have vse: "vs ! (i - Suc k)
             = Fin ((A ! i ! k - (\<Sum>d<k. L ! i ! d * L ! k ! d)) / sqrt x)"
    if "k < i" "i < N" for i
  proof -
    have idx: "i - Suc k < N - Suc k" "i - k < N - k" and i': "k + (i - k) = i"
      "Suc k + (i - Suc k) = i"
      using that by arith+
    have "drop (Suc k) a2 ! (i - Suc k) = a2 ! i"
      using i'(2) la2 that by simp
    also have "\<dots> = Fin (c ! (i - k))"
      using that idx by (simp add: a2 nth_append lp fvec_def lc)
    finally show ?thesis
      using idx sx ce [OF idx(2)] by (simp add: vs_def la2 L1e i')
  qed
  have step: "chol_left_amp_step (fmat A) k (fmat L, a) = (set_col_below L1 k vs, a2)"
    by (simp only: chol_left_amp_step_def Let_def prod.case vs_def L1_def a2_def a1_def js_def)
  have "set_col_below L1 k vs = fmat (left_step_real A k L)"
  proof (rule mat_eqI [of N N])
    show "is_shape N N (set_col_below L1 k vs)"
      using sh1 lvs by (rule shape_set_col_below)
    show "is_shape N N (fmat (left_step_real A k L))"
      using lenA by (simp add: left_step_real_shape)
    fix i c assume ic: "i < N" "c < N"
    have r: "fmat (left_step_real A k L) ! i ! c = Fin (left_step_real A k L ! i ! c)"
      using ic lenA by (intro nth_fmat [of N N]) (simp_all add: left_step_real_shape)
    show "set_col_below L1 k vs ! i ! c = fmat (left_step_real A k L) ! i ! c"
      unfolding r left_step_real_nth [OF lenA ic] nth_set_col_below [OF sh1 lvs ic(1) k]
      using ic k vse [of i] by (auto simp: L1e nth_fmat [OF shL] simp flip: x_def)
  qed
  then show ?thesis
    using step la2 by simp
qed

lemma chol_left_amp_is_chol_left:
  assumes sh: "is_shape N N A" and spd: "spd A"
  shows "chol_left_amp (fmat A) lower = chol_left (fmat A) lower"
proof -
  have len: "length A = N" using sh by (rule is_shape_length)
  have pre: "\<exists>a. fold (chol_left_amp_step (fmat A)) [0..<k] (zeros N N, replicate N (Fin 0))
                  = (fmat (left_columns_real A k), a) \<and> length a = N" if "k \<le> N" for k
    using that
  proof (induction k)
    case 0
    show ?case
      using fmat_zeros [OF sh] by (simp add: left_columns_real_def)
  next
    case (Suc k)
    then obtain a where run: "fold (chol_left_amp_step (fmat A)) [0..<k]
                                (zeros N N, replicate N (Fin 0))
                              = (fmat (left_columns_real A k), a)"
      and a: "length a = N"
      by auto
    have kN: "k < N" "k \<le> N" using Suc.prems by simp_all
    have inv: "left_inv A k (left_columns_real A k)"
      using spd sh kN(2) by (rule left_columns_prefix(1))
    have pos: "0 < A ! k ! k - (\<Sum>c<k. left_columns_real A k ! k ! c * left_columns_real A k ! k ! c)"
      using spd len inv kN(1) by (rule spd_radicand_pos)
    from chol_left_amp_step_sim [OF sh inv kN(1) pos a] obtain a' where
      "chol_left_amp_step (fmat A) k (fmat (left_columns_real A k), a)
       = (fmat (left_columns_real A (Suc k)), a')" "length a' = N"
      by (auto simp: left_columns_real_Suc)
    then show ?case
      using run by simp
  qed
  from pre [of N] obtain a where
    "fold (chol_left_amp_step (fmat A)) [0..<N] (zeros N N, replicate N (Fin 0))
     = (fmat (left_columns_real A N), a)"
    by auto
  then show ?thesis
    using sh left_columns_prefix(2) [OF spd sh, of N]
    by (simp add: chol_left_amp_def chol_left_def Let_def len)
qed

section \<open>The up-looking factorization of a positive definite matrix\<close>

lemma up_rows_shape: "length F = N \<Longrightarrow> is_shape N N (up_rows F k)"
  by (simp add: up_rows_def is_shape_iff)

lemma up_rows_nth:
  "length F = N \<Longrightarrow> i < N \<Longrightarrow> c < N \<Longrightarrow> up_rows F k ! i ! c = (if i < k then F ! i ! c else 0)"
  by (simp add: up_rows_def)

lemma chol_up_step_sim:
  assumes spd: "spd A" and sh: "is_shape N N A" and inv: "left_inv A N F" and k: "k < N"
  shows "chol_up_step (fmat A) k (fmat (up_rows F k)) = Inr (fmat (up_rows F (Suc k)))"
proof -
  have lenA: "length A = N" using sh by (rule is_shape_length)
  from inv have shF: "is_shape N N F"
    and zero: "\<And>i c. i < N \<Longrightarrow> c < N \<Longrightarrow> i < c \<Longrightarrow> F ! i ! c = 0"
    and diag: "\<And>c. c < N \<Longrightarrow> 0 < F ! c ! c"
    and col: "\<And>c i. c < N \<Longrightarrow> i < N \<Longrightarrow> c \<le> i \<Longrightarrow> (\<Sum>d<Suc c. F ! i ! d * F ! c ! d) = A ! i ! c"
    by (auto simp: left_inv_def lenA Let_def)
  from spd have sym: "\<And>i j. i < N \<Longrightarrow> j < N \<Longrightarrow> A ! i ! j = A ! j ! i"
    by (auto simp: spd_def lenA Let_def)
  have lenF: "length F = N" using shF by (rule is_shape_length)
  define Lk where "Lk = up_rows F k"
  have shL: "is_shape N N Lk" unfolding Lk_def using lenF by (rule up_rows_shape)
  have lenL: "length Lk = N" using shL by (rule is_shape_length)
  have Lke: "Lk ! i ! c = (if i < k then F ! i ! c else 0)" if "i < N" "c < N" for i c
    unfolding Lk_def using lenF that by (rule up_rows_nth)
  define B where "B = map (take k) (take k Lk)"
  have shB: "is_shape k k B"
    using k is_shape_row [OF shL] by (simp add: B_def is_shape_iff lenL)
  have Be: "B ! i ! c = F ! i ! c" if "i < k" "c < k" for i c
    using that k by (simp add: B_def lenL Lke)
  have blk: "block (fmat Lk) 0 k 0 k = fmat B"
    by (simp add: block_def fmat_def B_def take_map)
  define wv where "wv = map (\<lambda>r. r ! k) (take k A)"
  have lw: "length wv = k" using k by (simp add: wv_def lenA)
  have we: "wv ! i = A ! i ! k" if "i < k" for i
    using that k by (simp add: wv_def lenA)
  have rhs: "map (\<lambda>r. r ! k) (take k (fmat A)) = fvec wv"
  proof (rule nth_equalityI)
    show "length (map (\<lambda>r. r ! k) (take k (fmat A))) = length (fvec wv)"
      using k by (simp add: fvec_def fmat_def lw lenA)
    fix i assume "i < length (map (\<lambda>r. r ! k) (take k (fmat A)))"
    then have i: "i < k" by (simp add: fmat_def lenA)
    then have iN: "i < N" using k by simp
    show "map (\<lambda>r. r ! k) (take k (fmat A)) ! i = fvec wv ! i"
      using i nth_fmat [OF sh iN k] k by (simp add: fvec_def lw we fmat_def lenA)
  qed
  have nz: "B ! i ! i \<noteq> 0" if "i < k" for i
    using that diag [of i] k by (simp add: Be)
  from la_solve_real [OF shB lw nz] obtain x where lx: "length x = k"
    and sol: "la_solve (fmat B) (fvec wv) = Inr (fvec x)"
    and rx: "\<forall>i<k. x ! i = (wv ! i - (\<Sum>c<i. B ! i ! c * x ! c)) / B ! i ! i"
    by auto
  define y where "y = take k (F ! k)"
  have ly: "length y = k" using k is_shape_row [OF shF k] by (simp add: y_def)
  have ye: "y ! c = F ! k ! c" if "c < k" for c
    using that by (simp add: y_def)
  have sy: "\<forall>i<k. (\<Sum>c<k. B ! i ! c * y ! c) = wv ! i"
  proof (intro allI impI)
    fix i assume i: "i < k"
    then have iN: "i < N" using k by simp
    have "(\<Sum>c<k. B ! i ! c * y ! c) = (\<Sum>c<k. F ! k ! c * F ! i ! c)"
      by (rule sum.cong) (use i in \<open>simp_all add: Be ye\<close>)
    also have "\<dots> = (\<Sum>c<Suc i. F ! k ! c * F ! i ! c)"
    proof (rule sum.mono_neutral_right)
      show "finite {..<k}" by simp
      show "{..<Suc i} \<subseteq> {..<k}" using i by auto
      show "\<forall>c\<in>{..<k} - {..<Suc i}. F ! k ! c * F ! i ! c = 0"
        using zero [OF iN] k by auto
    qed
    also have "\<dots> = A ! k ! i"
      using col [OF iN k] i by simp
    also have "\<dots> = wv ! i"
      using sym [OF k iN] we [OF i] by simp
    finally show "(\<Sum>c<k. B ! i ! c * y ! c) = wv ! i" .
  qed
  have xy: "x = y"
  proof (rule triangular_solution_unique [of k B x y wv])
    show "B ! i ! c = 0" if "i < k" "c < k" "i < c" for i c
      using that k zero [of i c] by (simp add: Be)
    show "B ! i ! i \<noteq> 0" if "i < k" for i using that by (rule nz)
  qed (rule lx ly rx sy)+
  define L1 where "L1 = (fmat Lk)[k := fvec x @ drop k (fmat Lk ! k)]"
  have row: "chol_up_row (fmat A) k (fmat Lk) = Inr L1"
    by (simp add: chol_up_row_def blk rhs sol L1_def)
  have shL': "is_shape N N (fmat Lk)" using shL by simp
  have sh1: "is_shape N N L1"
    using shL' k row by (rule chol_up_row_shape)
  have lrow: "length (fmat Lk ! k) = N"
    using is_shape_row [OF shL' k] .
  have L1e: "L1 ! i ! c = (if i < k \<or> (i = k \<and> c < k) then Fin (F ! i ! c) else Fin 0)"
    if "i < N" "c < N" for i c
  proof (cases "i = k")
    case True
    have "L1 ! k = fvec x @ drop k (fmat Lk ! k)"
      using k by (simp add: L1_def fmat_def lenL)
    moreover have "fmat Lk ! k ! c = Fin 0"
      using nth_fmat [OF shL k that(2)] that(2) k by (simp add: Lke)
    ultimately show ?thesis
      using True that k by (auto simp: nth_append fvec_def xy ly ye lrow)
  next
    case False
    then show ?thesis
      using that k by (auto simp: L1_def nth_fmat [OF shL] Lke)
  qed
  have tk: "take k (L1 ! k) = fvec y"
  proof (rule nth_equalityI)
    show "length (take k (L1 ! k)) = length (fvec y)"
      using is_shape_row [OF sh1 k] k by (simp add: fvec_def ly)
    fix c assume "c < length (take k (L1 ! k))"
    then have c: "c < k" by simp
    then show "take k (L1 ! k) ! c = fvec y ! c"
      using k by (simp add: L1e fvec_def ly ye)
  qed
  have "(\<Sum>c<Suc k. F ! k ! c * F ! k ! c) = A ! k ! k"
    using col [OF k k] by simp
  then have rk: "A ! k ! k - (\<Sum>c<k. F ! k ! c * F ! k ! c) = F ! k ! k * F ! k ! k"
    by simp
  have "sum_list (map2 (*) y y) = (\<Sum>c<k. F ! k ! c * F ! k ! c)"
    unfolding y_def using is_shape_row [OF shF k] k
    by (intro sum_list_map2_take) simp_all
  then have rad: "chol_up_radicand (fmat A) k L1 = Fin (F ! k ! k * F ! k ! k)"
    using rk by (simp add: chol_up_radicand_def tk f_dot_fvec nth_fmat [OF sh k k] f_sub_def)
  have sq: "f_sqrt (Fin (F ! k ! k * F ! k ! k)) = Fin (F ! k ! k)"
    using diag [OF k] by (simp add: real_sqrt_mult)
  have step: "chol_up_step (fmat A) k (fmat Lk) = Inr (set2 L1 k k (Fin (F ! k ! k)))"
    by (simp add: chol_up_step_def row rad sq del: f_sqrt.simps)
  have "set2 L1 k k (Fin (F ! k ! k)) = fmat (up_rows F (Suc k))"
  proof (rule mat_eqI [of N N])
    show "is_shape N N (set2 L1 k k (Fin (F ! k ! k)))"
      using sh1 by (rule shape_set2)
    show shU: "is_shape N N (fmat (up_rows F (Suc k)))"
      using lenF by (simp add: up_rows_shape)
    fix i c assume ic: "i < N" "c < N"
    have r: "fmat (up_rows F (Suc k)) ! i ! c = Fin (up_rows F (Suc k) ! i ! c)"
      using ic lenF by (intro nth_fmat [of N N]) (simp_all add: up_rows_shape)
    show "set2 L1 k k (Fin (F ! k ! k)) ! i ! c = fmat (up_rows F (Suc k)) ! i ! c"
      unfolding r up_rows_nth [OF lenF ic] nth_set2 [OF sh1 k k]
      using ic k zero [of k c] by (cases "i = k") (auto simp: L1e)
  qed
  then show ?thesis
    using step by (simp add: Lk_def)
qed

lemma chol_up_is_chol_left:
  assumes sh: "is_shape N N A" and spd: "spd A"
  shows "chol_up (fmat A) lower = chol_left (fmat A) lower"
proof -
  have len: "length A = N" using sh by (rule is_shape_length)
  define F where "F = left_columns_real A N"
  have inv: "left_inv A N F"
    unfolding F_def using spd sh by (rule left_columns_prefix(1)) simp
  then have shF: "is_shape N N F"
    and zero: "\<And>i c. i < N \<Longrightarrow> c < N \<Longrightarrow> i < c \<Longrightarrow> F ! i ! c = 0"
    by (auto simp: left_inv_def len Let_def)
  have lenF: "length F = N" using shF by (rule is_shape_length)
  have pre: "for_loop [0..<k] (chol_up_step (fmat A)) (zeros N N) = Inr (fmat (up_rows F k))"
    if "k \<le> N" for k
    using that
  proof (induction k)
    case 0
    have "zeros N N = fmat (up_rows F 0)"
      by (rule mat_eqI [of N N])
        (auto simp: is_shape_iff zeros_def fmat_def up_rows_def lenF)
    then show ?case by simp
  next
    case (Suc k)
    then have kN: "k < N" by simp
    show ?case
      using Suc chol_up_step_sim [OF spd sh inv kN] by (simp add: for_loop_append)
  qed
  have "up_rows F N = F"
    by (rule mat_eqI [of N N]) (simp_all add: up_rows_shape lenF shF up_rows_nth)
  then show ?thesis
    using sh pre [of N] left_columns_prefix(2) [OF spd sh, of N]
    by (simp add: chol_up_def chol_left_def Let_def len F_def)
qed

section \<open>The four dense factorizations of a positive definite matrix\<close>

text \<open>On a symmetric positive definite matrix the up-looking, the left-looking, the
  left-looking over nonzero entries and the right-looking factorization all return the
  same array: it is lower triangular, has a positive diagonal, and \<open>L L\<^sup>T = A\<close>.\<close>

lemma dense_factorizations_agree:
  assumes sh: "is_shape N N A" and spd: "spd A"
  shows "\<exists>L. is_shape N N L \<and> lower_tri L \<and> pos_diag L
             \<and> (\<forall>i<N. \<forall>c<N. gram L i c = A ! i ! c)
             \<and> chol_left (fmat A) True = Inr (fmat L)
             \<and> chol_up (fmat A) True = Inr (fmat L)
             \<and> chol_left_amp (fmat A) True = Inr (fmat L)
             \<and> chol_right (fmat A) True = Inr (fmat L)"
proof -
  have len: "length A = N" using sh by (rule is_shape_length)
  define L where "L = left_columns_real A N"
  have inv: "left_inv A N L"
    unfolding L_def using spd sh by (rule left_columns_prefix(1)) simp
  note fin = left_inv_final [OF spd len inv]
  have left: "chol_left (fmat A) True = Inr (fmat L)"
    using sh left_columns_prefix(2) [OF spd sh, of N]
    by (simp add: chol_left_def Let_def len oriented_def L_def)
  show ?thesis
    using fin left chol_up_is_chol_left [OF sh spd, of True]
      chol_left_amp_is_chol_left [OF sh spd, of True]
      chol_right_is_chol_left [OF sh spd, of True]
    by (intro exI [of _ L]) simp
qed

section \<open>The update when an operation overflows\<close>

lemma update_head_ovf_shape:
  assumes "is_shape N N L" "length w = N"
    and "update_head_ovf j (L, w, \<beta>) = ((L1, w1, \<beta>1), \<alpha>, \<gamma>, \<delta>)"
  shows "is_shape N N L1" "length w1 = N"
  using assms by (auto simp: update_head_ovf_def Let_def shape_set2)

lemma update_tail_ovf_shape:
  assumes "is_shape N N L" "length w = N" "j < N"
    and "update_tail_ovf j ((L, w, \<beta>), \<alpha>, \<gamma>, \<delta>) = (L', w', \<beta>')"
  shows "is_shape N N L'" "length w' = N"
proof -
  have len: "length L = N" using assms(1) by (rule is_shape_length)
  have "length (map2 o_add (map (o_mul \<delta>) (col_below L j)) (map (o_mul \<gamma>) (drop (Suc j) w)))
        = N - Suc j"
    by (simp add: length_col_below len assms(2))
  then show "is_shape N N L'"
    using assms(1,4) by (auto simp: update_tail_ovf_def Let_def intro: shape_set_col_below)
  have "length (map2 o_sub (drop (Suc j) w) (map (o_mul \<alpha>) (col_below L j))) = length w - Suc j"
    by (simp add: length_col_below len assms(2))
  then show "length w' = N"
    using assms(2-4) length_set_below [of _ w j]
    by (auto simp: update_tail_ovf_def Let_def)
qed

lemma update_loop_ovf_shape:
  assumes "is_shape N N L" "length w = N"
  shows "\<exists>L' w' \<beta>'. update_loop_ovf N j (L, w, \<beta>) = (L', w', \<beta>')
           \<and> is_shape N N L' \<and> length w' = N"
  using assms
proof (induction "N - j" arbitrary: j L w \<beta>)
  case 0
  then show ?case by (subst update_loop_ovf.simps) simp
next
  case (Suc d)
  then have j: "j < N" by simp
  obtain L1 w1 \<beta>1 \<alpha> \<gamma> \<delta> where
    h: "update_head_ovf j (L, w, \<beta>) = ((L1, w1, \<beta>1), \<alpha>, \<gamma>, \<delta>)"
    by (metis prod_cases3)
  note sh1 = update_head_ovf_shape [OF Suc.prems h]
  show ?case
  proof (cases "j = N - 1")
    case True
    then have "update_loop_ovf N j (L, w, \<beta>) = (L1, w1, \<beta>1)"
      using j h by (subst update_loop_ovf.simps) (auto simp: Let_def)
    then show ?thesis
      using sh1 by simp
  next
    case False
    obtain L2 w2 \<beta>2 where
      t: "update_tail_ovf j ((L1, w1, \<beta>1), \<alpha>, \<gamma>, \<delta>) = (L2, w2, \<beta>2)"
      by (metis prod_cases3)
    note sh2 = update_tail_ovf_shape [OF sh1 j t]
    have d: "d = N - Suc j" using Suc.hyps(2) by simp
    have "update_loop_ovf N j (L, w, \<beta>) = update_loop_ovf N (Suc j) (L2, w2, \<beta>2)"
      using j False by (subst update_loop_ovf.simps) (simp add: h t)
    then show ?thesis
      using Suc.hyps(1) [OF d sh2] by simp
  qed
qed

lemma chol_update_ovf_returns:
  assumes "is_shape N N L" "length w = N"
  shows "\<exists>L' w'. chol_update_ovf L w = Inr (L', w') \<and> is_shape N N L' \<and> length w' = N"
proof -
  have len: "length L = N" using assms(1) by (rule is_shape_length)
  from update_loop_ovf_shape [OF assms, of 0 "Fin 1"] obtain L' w' \<beta>' where
    "update_loop_ovf N 0 (L, w, Fin 1) = (L', w', \<beta>')" "is_shape N N L'" "length w' = N"
    by blast
  then show ?thesis
    using assms by (simp add: chol_update_ovf_def Let_def len)
qed

text \<open>Where nothing overflows the two readings of \<^verbatim>\<open>chol_update\<close> compute the same
  arrays, for instance here.\<close>

lemma chol_update_ovf_example:
  "chol_update_ovf (fmat [[4, 0], [4, 1]]) (fvec [3, 6])
     = Inr (fmat [[5, 0], [34 / 5, 13 / 5]], fvec [3 / 4, 3])
   \<and> chol_update (fmat [[4, 0], [4, 1]]) (fvec [3, 6])
     = Inr (fmat [[5, 0], [34 / 5, 13 / 5]], fvec [3 / 4, 3])"
  by (simp add: chol_update_ovf_def update_loop_ovf.simps update_head_ovf_def update_tail_ovf_def
      Let_def o_add_def o_sub_def o_mul_def o_div_def f64_overflow_def
      updown_eval array_eval fmat_def fvec_def sqrt_25_16 sqrt_169_16)

text \<open>
  C10, as the code has it. With \<open>L = [[1.]]\<close> and \<open>w = [1e200]\<close> the square of \<open>\<alpha>\<close>
  overflows, \<open>\<beta>2\<close> is infinite, \<open>\<gamma>\<close> and \<open>\<delta>\<close> are zero, and the diagonal entry of the
  factor that \<^verbatim>\<open>chol_update\<close> returns is \<open>0.0\<close>: not strictly positive.
\<close>

theorem chol_update_overflow_zero_diagonal:
  "is_shape 1 1 [[1 :: real]] \<and> length [10 ^ 200 :: real] = 1
   \<and> lower_tri [[1]] \<and> pos_diag [[1]]
   \<and> chol_update_ovf (fmat [[1]]) (fvec [10 ^ 200]) = Inr (fmat [[0]], fvec [10 ^ 200])
   \<and> \<not> pos_diag [[0]]"
  by (simp add: chol_update_ovf_def update_loop_ovf.simps update_head_ovf_def Let_def
      o_add_def o_mul_def o_div_def set2_def is_shape_def f64_overflow_def inf_signed_def
      fmat_def fvec_def lower_tri_def pos_diag_def)

text \<open>
  C10, amended. \<^verbatim>\<open>chol_update\<close> has no failing branch: on a lower-triangular \<open>L\<close> with
  positive diagonal and a vector \<open>w\<close> of its dimension it returns arrays of the same
  shapes, also when operations overflow. In exact arithmetic every entry of its results
  is finite and the diagonal of the new factor is again strictly positive.
\<close>

theorem chol_update_succeeds_exact_positive:
  assumes "is_shape N N L" and "length w = N" and "lower_tri L" and "pos_diag L"
  shows "(\<exists>L' w'. chol_update_ovf (fmat L) (fvec w) = Inr (L', w')
            \<and> is_shape N N L' \<and> length w' = N)
       \<and> (\<exists>L' w'. chol_update (fmat L) (fvec w) = Inr (fmat L', fvec w')
            \<and> is_shape N N L' \<and> pos_diag L')"
proof
  show "\<exists>L' w'. chol_update_ovf (fmat L) (fvec w) = Inr (L', w')
          \<and> is_shape N N L' \<and> length w' = N"
    using assms(1,2) by (intro chol_update_ovf_returns) simp_all
  show "\<exists>L' w'. chol_update (fmat L) (fvec w) = Inr (fmat L', fvec w')
          \<and> is_shape N N L' \<and> pos_diag L'"
    using chol_update_real [OF assms] by blast
qed

theorem chol_update_succeeds_exact_positive_witness:
  "is_shape 2 2 [[4, 0], [4, 1 :: real]] \<and> length [3, 6 :: real] = 2
   \<and> lower_tri [[4, 0], [4, 1]] \<and> pos_diag [[4, 0], [4, 1]]
   \<and> (\<exists>L' w'. chol_update_ovf (fmat [[4, 0], [4, 1]]) (fvec [3, 6]) = Inr (L', w')
          \<and> is_shape 2 2 L' \<and> length w' = 2)
   \<and> (\<exists>L' w'. chol_update (fmat [[4, 0], [4, 1]]) (fvec [3, 6]) = Inr (fmat L', fvec w')
          \<and> is_shape 2 2 L' \<and> pos_diag L')"
proof -
  have sh: "is_shape 2 2 [[4, 0], [4, 1 :: real]]" by (simp add: is_shape_def)
  have len: "length [3, 6 :: real] = 2" by simp
  have tri: "lower_tri [[4, 0], [4, 1]]"
    by (simp add: lower_tri_def All_less_Suc)
  have pos: "pos_diag [[4, 0], [4, 1]]"
    by (simp add: pos_diag_def All_less_Suc)
  show ?thesis
    using sh len tri pos chol_update_succeeds_exact_positive [OF sh len tri pos] by simp
qed

end
